theory Spec2Isabelle
  imports Main
begin

section \<open>Data model\<close>

text \<open>
  Python objects handled by \<^verbatim>\<open>pyschema_extensions/avro.py\<close>: field values, defaults,
  the JSON-compatible values of the codec and the schema documents are all ordinary Python
  objects, so one type holds them. \<open>NO_DEFAULT\<close> is the sentinel \<^verbatim>\<open>core.NO_DEFAULT\<close>.
  A dictionary is an association list with distinct keys, read in the order its items are
  iterated. A float is carried by its bit pattern; this module never computes with it.
  A record instance names the class it is an instance of and holds its attributes.
\<close>

datatype 'r pyval =
    PNone
  | NO_DEFAULT
  | PBool bool
  | PInt int
  | PFloat nat
  | PStr string
  | PList "'r pyval list"
  | PDict "('r pyval \<times> 'r pyval) list"
  | PRecord 'r "(string \<times> 'r pyval) list"

text \<open>
  The field kinds of \<^verbatim>\<open>pyschema.types\<close>, each with the attributes the mixins read:
  \<^verbatim>\<open>nullable\<close> and \<^verbatim>\<open>default\<close> on every field, \<^verbatim>\<open>size\<close> on Integer and Float,
  \<^verbatim>\<open>values\<close> on Enum, \<^verbatim>\<open>field_type\<close> on List, \<^verbatim>\<open>key_type\<close> and \<^verbatim>\<open>value_type\<close> on Map
  and \<^verbatim>\<open>_schema\<close> on SubRecord. A schema is referenced as Python references a class:
  by a reference of type \<open>'r\<close> that the environment resolves.
\<close>

datatype 'r field =
    Boolean (nullable: bool) (default_v: "'r pyval")
  | Integer (size_v: int) (nullable: bool) (default_v: "'r pyval")
  | Float (size_v: int) (nullable: bool) (default_v: "'r pyval")
  | Bytes (nullable: bool) (default_v: "'r pyval")
  | Text (nullable: bool) (default_v: "'r pyval")
  | Enum (values_v: "string list") (nullable: bool) (default_v: "'r pyval")
  | List (field_type: "'r field") (nullable: bool) (default_v: "'r pyval")
  | Map (key_type: "'r field") (value_type: "'r field") (nullable: bool) (default_v: "'r pyval")
  | SubRecord (schema_ref: 'r) (nullable: bool) (default_v: "'r pyval")

text \<open>
  A record class: \<^verbatim>\<open>__name__\<close>, \<^verbatim>\<open>_schema_name\<close>, \<^verbatim>\<open>_avro_namespace_\<close> (\<open>None\<close> when the
  class has no such attribute) and \<^verbatim>\<open>_fields\<close> in iteration order.
\<close>

datatype 'r schema = Schema
  (cls_name: string)
  (schema_name: string)
  (avro_namespace: "string option")
  (fields: "(string \<times> 'r field) list")

type_synonym 'r env = "'r \<Rightarrow> 'r schema"

datatype error =
    AssertionError
  | KeyError
  | TypeError
  | AttributeError
  | ParseError string

text \<open>\<^verbatim>\<open>SchemaGeneratorState.declared_records\<close>.\<close>

type_synonym state = "string set"

section \<open>Type names\<close>

text \<open>
  The qualified name computed at the head of \<^verbatim>\<open>get_schema_dict\<close> and by
  \<^verbatim>\<open>SubRecordMixin.avro_type_name\<close>.
\<close>

definition record_name :: "'r schema \<Rightarrow> string" where
  "record_name record =
     (case avro_namespace record of
        Some namespace \<Rightarrow> namespace @ ''.'' @ schema_name record
      | None \<Rightarrow> schema_name record)"

fun avro_type_name :: "'r env \<Rightarrow> 'r field \<Rightarrow> string" where
  "avro_type_name env (Boolean n d) = ''boolean''"
| "avro_type_name env (Bytes n d) = ''bytes''"
| "avro_type_name env (Text n d) = ''string''"
| "avro_type_name env (Enum vs n d) = ''ENUM''"
| "avro_type_name env (List t n d) = ''array''"
| "avro_type_name env (Map k v n d) = ''map''"
| "avro_type_name env (Float sz n d) = (if sz \<le> 4 then ''float'' else ''double'')"
| "avro_type_name env (Integer sz n d) = (if sz \<le> 4 then ''int'' else ''long'')"
| "avro_type_name env (SubRecord r n d) = record_name (env r)"

definition avro_default_value :: "'r field \<Rightarrow> 'r pyval" where
  "avro_default_value f = default_v f"

section \<open>Schema generation\<close>

text \<open>
  \<^verbatim>\<open>get_schema_dict\<close> with the loop over \<^verbatim>\<open>record._fields\<close> (\<open>avro_fields_loop\<close>),
  \<^verbatim>\<open>FieldMixin.avro_type_schema\<close> and the \<^verbatim>\<open>simplified_avro_type_schema\<close> of every
  kind. The state object is mutated in place by the source; here each function returns it.
  The failed \<^verbatim>\<open>assert\<close> of \<^verbatim>\<open>MapMixin\<close> is \<open>Inl AssertionError\<close>.
\<close>

function
  get_schema_dict :: "('r::finite) env \<Rightarrow> 'r \<Rightarrow> state option \<Rightarrow> error + ('r pyval \<times> state)"
and avro_fields_loop ::
  "'r env \<Rightarrow> (string \<times> 'r field) list \<Rightarrow> state \<Rightarrow> error + ('r pyval list \<times> state)"
and avro_type_schema :: "'r env \<Rightarrow> 'r field \<Rightarrow> state \<Rightarrow> error + ('r pyval \<times> state)"
and simplified_avro_type_schema ::
  "'r env \<Rightarrow> 'r field \<Rightarrow> state \<Rightarrow> error + ('r pyval \<times> state)"
where
  "get_schema_dict env record state =
     (let st = (case state of Some s \<Rightarrow> s | None \<Rightarrow> {});
          namespace = avro_namespace (env record)
      in if record_name (env record) \<in> st then Inr (PStr (record_name (env record)), st)
         else (case avro_fields_loop env (fields (env record))
                      (insert (record_name (env record)) st) of
                 Inl e \<Rightarrow> Inl e
               | Inr (avro_fields, st') \<Rightarrow>
                   Inr (PDict ([(PStr ''type'', PStr ''record''),
                                (PStr ''name'', PStr (schema_name (env record)))]
                               @ (case namespace of
                                    Some ns \<Rightarrow>
                                      (if ns \<noteq> [] then [(PStr ''namespace'', PStr ns)] else [])
                                  | None \<Rightarrow> [])
                               @ [(PStr ''fields'', PList avro_fields)]), st')))"
| "avro_fields_loop env [] st = Inr ([], st)"
| "avro_fields_loop env ((field_name, ftype) # rest) st =
     (case avro_type_schema env ftype st of
        Inl e \<Rightarrow> Inl e
      | Inr (ty, st1) \<Rightarrow>
          (let field_spec = [(PStr ''name'', PStr field_name), (PStr ''type'', ty)]
                 @ (if default_v ftype \<noteq> NO_DEFAULT
                    then [(PStr ''default'', avro_default_value ftype)] else [])
           in case avro_fields_loop env rest st1 of
                Inl e \<Rightarrow> Inl e
              | Inr (specs, st2) \<Rightarrow> Inr (PDict field_spec # specs, st2)))"
| "avro_type_schema env f st =
     (case simplified_avro_type_schema env f st of
        Inl e \<Rightarrow> Inl e
      | Inr (simple_type, st') \<Rightarrow>
          (if nullable f then
             (if default_v f = PNone \<or> default_v f = NO_DEFAULT
              then Inr (PList [PStr ''null'', simple_type], st')
              else Inr (PList [simple_type, PStr ''null''], st'))
           else Inr (simple_type, st')))"
| "simplified_avro_type_schema env (List t n d) st =
     (case avro_type_schema env t st of
        Inl e \<Rightarrow> Inl e
      | Inr (items, st') \<Rightarrow>
          Inr (PDict [(PStr ''type'', PStr ''array''), (PStr ''items'', items)], st'))"
| "simplified_avro_type_schema env (Enum vs n d) st =
     Inr (PDict [(PStr ''type'', PStr ''enum''),
                 (PStr ''name'', PStr (avro_type_name env (Enum vs n d))),
                 (PStr ''symbols'', PList (map PStr vs))], st)"
| "simplified_avro_type_schema env (SubRecord r n d) st = get_schema_dict env r (Some st)"
| "simplified_avro_type_schema env (Map k v n d) st =
     (if \<not> is_Text k then Inl AssertionError
      else case avro_type_schema env v st of
             Inl e \<Rightarrow> Inl e
           | Inr (vals, st') \<Rightarrow>
               Inr (PDict [(PStr ''type'', PStr ''map''), (PStr ''values'', vals)], st'))"
| "simplified_avro_type_schema env (Boolean n d) st =
     Inr (PStr (avro_type_name env (Boolean n d)), st)"
| "simplified_avro_type_schema env (Integer sz n d) st =
     Inr (PStr (avro_type_name env (Integer sz n d)), st)"
| "simplified_avro_type_schema env (Float sz n d) st =
     Inr (PStr (avro_type_name env (Float sz n d)), st)"
| "simplified_avro_type_schema env (Bytes n d) st =
     Inr (PStr (avro_type_name env (Bytes n d)), st)"
| "simplified_avro_type_schema env (Text n d) st =
     Inr (PStr (avro_type_name env (Text n d)), st)"
  by pat_completeness auto

text \<open>
  The declared set only grows. This is needed before termination is known, because the
  loop passes the state left by one field to the next.
\<close>

lemma declared_mono_partial:
  "get_schema_dict_avro_fields_loop_avro_type_schema_simplified_avro_type_schema_dom
     (Inl (Inl (env, r, so))) \<Longrightarrow>
   (\<forall>d st'. get_schema_dict env r so = Inr (d, st') \<longrightarrow>
      (case so of Some s \<Rightarrow> s | None \<Rightarrow> {}) \<subseteq> st')"
  "get_schema_dict_avro_fields_loop_avro_type_schema_simplified_avro_type_schema_dom
     (Inl (Inr (env, fs, st))) \<Longrightarrow>
   (\<forall>d st'. avro_fields_loop env fs st = Inr (d, st') \<longrightarrow> st \<subseteq> st')"
  "get_schema_dict_avro_fields_loop_avro_type_schema_simplified_avro_type_schema_dom
     (Inr (Inl (env, f, st))) \<Longrightarrow>
   (\<forall>d st'. avro_type_schema env f st = Inr (d, st') \<longrightarrow> st \<subseteq> st')"
  "get_schema_dict_avro_fields_loop_avro_type_schema_simplified_avro_type_schema_dom
     (Inr (Inr (env, f, st))) \<Longrightarrow>
   (\<forall>d st'. simplified_avro_type_schema env f st = Inr (d, st') \<longrightarrow> st \<subseteq> st')"
proof (induct
    rule: get_schema_dict_avro_fields_loop_avro_type_schema_simplified_avro_type_schema.pinduct)
  case (1 env rcd state)
  then show ?case
    by (auto simp: get_schema_dict.psimps Let_def split: sum.splits if_splits option.splits)
next
  case (2 env st)
  then show ?case by (simp add: avro_fields_loop.psimps)
next
  case (3 env field_name ftype rest st)
  then show ?case
    by (fastforce simp: avro_fields_loop.psimps Let_def split: sum.splits prod.splits)
next
  case (4 env f st)
  then show ?case by (auto simp: avro_type_schema.psimps split: sum.splits if_splits)
next
  case (5 env t n d st)
  then show ?case by (auto simp: simplified_avro_type_schema.psimps split: sum.splits)
next
  case (7 env r n d st)
  then show ?case by (auto simp: simplified_avro_type_schema.psimps split: sum.splits)
next
  case (8 env k v n d st)
  then show ?case
    by (auto simp: simplified_avro_type_schema.psimps split: sum.splits if_splits)
qed (auto simp: simplified_avro_type_schema.psimps)

text \<open>The number of qualified names of the environment that are not declared yet.\<close>

definition undeclared :: "('r::finite) env \<Rightarrow> state \<Rightarrow> nat" where
  "undeclared env st = card (range (\<lambda>r. record_name (env r)) - st)"

lemma undeclared_mono: "st \<subseteq> st' \<Longrightarrow> undeclared env st' \<le> undeclared env st"
  unfolding undeclared_def by (intro card_mono) auto

lemma undeclared_insert:
  "record_name (env r) \<notin> st \<Longrightarrow>
   undeclared env (insert (record_name (env r)) st) < undeclared env st"
  unfolding undeclared_def by (intro psubset_card_mono) auto

termination get_schema_dict
proof (relation "inv_image (less_than <*lex*> less_than)
   (\<lambda>x. case x of
      Inl (Inl (env, r, so)) \<Rightarrow> (undeclared env (case so of Some s \<Rightarrow> s | None \<Rightarrow> {}), 0)
    | Inl (Inr (env, fs, st)) \<Rightarrow>
        (undeclared env st, sum_list (map (\<lambda>(n, f). 2 * size f + 3) fs) + 1)
    | Inr (Inl (env, f, st)) \<Rightarrow> (undeclared env st, 2 * size f + 2)
    | Inr (Inr (env, f, st)) \<Rightarrow> (undeclared env st, 2 * size f + 1))", goal_cases)
  case 1
  then show ?case by (intro wf_inv_image wf_lex_prod wf_less_than)
next
  case (2 env rcd state x xa)
  then show ?case
    using undeclared_insert[of env rcd x] by auto
next
  case (3 env field_name ftype rest st)
  then show ?case by simp
next
  case (4 env field_name ftype rest st b x y xa)
  then show ?case
    using declared_mono_partial(3)[of env ftype st] undeclared_mono[of st y env]
    by auto
next
  case (5 env f st)
  then show ?case by simp
next
  case (6 env t n d st)
  then show ?case by simp
next
  case (7 env r n d st)
  then show ?case by simp
next
  case (8 env k v n d st)
  then show ?case by simp
qed

text \<open>
  \<^verbatim>\<open>get_schema_string\<close>; \<^verbatim>\<open>json.dumps\<close> is the library's serialiser, taken as a parameter.
\<close>

definition get_schema_string ::
  "('r pyval \<Rightarrow> error + string) \<Rightarrow> ('r::finite) env \<Rightarrow> 'r \<Rightarrow> error + string" where
  "get_schema_string json_dumps env record =
     (case get_schema_dict env record None of
        Inl e \<Rightarrow> Inl e
      | Inr (d, st) \<Rightarrow> json_dumps d)"

section \<open>Value codec\<close>

text \<open>
  The codec calls into \<^verbatim>\<open>pyschema.core\<close> and \<^verbatim>\<open>pyschema.types\<close>, which are not part of
  the sources at hand: the scalar \<^verbatim>\<open>dump\<close> and \<^verbatim>\<open>load\<close> of every field, and the string
  conversion that formats an error message. They are parameters of the model.
\<close>

datatype 'r core = Core
  (dump: "'r field \<Rightarrow> 'r pyval \<Rightarrow> error + 'r pyval")
  (load: "'r field \<Rightarrow> 'r pyval \<Rightarrow> error + 'r pyval")
  (str_of: "'r pyval \<Rightarrow> string")

text \<open>
  Python's operations on objects, with their failures: \<^verbatim>\<open>obj[key]\<close>, \<^verbatim>\<open>getattr\<close>,
  iteration (a list gives its elements, a dictionary its keys, a string its characters),
  \<^verbatim>\<open>iteritems\<close>, \<^verbatim>\<open>d[key] = value\<close>, and \<^verbatim>\<open>dict(pairs)\<close>, which refuses a list or a
  dictionary as a key.
\<close>

fun getitem :: "'r pyval \<Rightarrow> string \<Rightarrow> error + 'r pyval" where
  "getitem (PDict kvs) k = (case map_of kvs (PStr k) of Some v \<Rightarrow> Inr v | None \<Rightarrow> Inl KeyError)"
| "getitem obj k = Inl TypeError"

fun getattr :: "'r pyval \<Rightarrow> string \<Rightarrow> error + 'r pyval" where
  "getattr (PRecord r attrs) name =
     (case map_of attrs name of Some v \<Rightarrow> Inr v | None \<Rightarrow> Inl AttributeError)"
| "getattr obj name = Inl AttributeError"

fun iter_values :: "'r pyval \<Rightarrow> error + 'r pyval list" where
  "iter_values (PList xs) = Inr xs"
| "iter_values (PDict kvs) = Inr (map fst kvs)"
| "iter_values (PStr s) = Inr (map (\<lambda>c. PStr [c]) s)"
| "iter_values obj = Inl TypeError"

fun iteritems :: "'r pyval \<Rightarrow> error + ('r pyval \<times> 'r pyval) list" where
  "iteritems (PDict kvs) = Inr kvs"
| "iteritems obj = Inl AttributeError"

fun setitem :: "('k \<times> 'v) list \<Rightarrow> 'k \<Rightarrow> 'v \<Rightarrow> ('k \<times> 'v) list" where
  "setitem [] k v = [(k, v)]"
| "setitem ((k', v') # kvs) k v = (if k' = k then (k, v) # kvs else (k', v') # setitem kvs k v)"

fun hashable :: "'r pyval \<Rightarrow> bool" where
  "hashable (PList xs) = False"
| "hashable (PDict kvs) = False"
| "hashable obj = True"

fun dict_of :: "('r pyval \<times> 'r pyval) list \<Rightarrow> ('r pyval \<times> 'r pyval) list
    \<Rightarrow> error + ('r pyval \<times> 'r pyval) list" where
  "dict_of [] acc = Inr acc"
| "dict_of ((k, v) # pairs) acc =
     (if hashable k then dict_of pairs (setitem acc k v) else Inl TypeError)"

text \<open>The nesting depth of an object, by which the codec's recursion descends.\<close>

fun depth :: "'r pyval \<Rightarrow> nat" where
  "depth (PList xs) = Suc (Max (insert 0 (depth ` set xs)))"
| "depth (PDict kvs) = Suc (Max (insert 0 ((\<lambda>(k, v). max (depth k) (depth v)) ` set kvs)))"
| "depth (PRecord r attrs) = Suc (Max (insert 0 ((\<lambda>(n, v). depth v) ` set attrs)))"
| "depth obj = 0"

definition depths :: "'r pyval list \<Rightarrow> nat" where
  "depths xs = Max (insert 0 (depth ` set xs))"

lemma depth_member: "x \<in> set xs \<Longrightarrow> depth x \<le> depths xs"
  unfolding depths_def by (intro Max_ge) auto

lemma depths_Cons: "depths (x # xs) = max (depth x) (depths xs)"
proof -
  have "insert 0 (depth ` set (x # xs)) = insert (depth x) (insert 0 (depth ` set xs))"
    by auto
  then show ?thesis unfolding depths_def by (simp only: Max_insert finite_insert finite_imageI
        finite_set insert_not_empty not_False_eq_True)
qed

lemma depths_iter_values: "iter_values obj = Inr xs \<Longrightarrow> depths xs \<le> depth obj"
proof (cases obj)
  case (PList ys)
  assume "iter_values obj = Inr xs"
  with PList have "depth obj = Suc (depths xs)" by (simp add: depths_def)
  then show ?thesis by simp
next
  case (PDict kvs)
  assume "iter_values obj = Inr xs"
  with PDict have xs: "xs = map fst kvs" by simp
  have "depth x \<le> Max (insert 0 ((\<lambda>(k, v). max (depth k) (depth v)) ` set kvs))"
    if "x \<in> fst ` set kvs" for x
  proof -
    from that obtain v where kv: "(x, v) \<in> set kvs" by auto
    then have "max (depth x) (depth v) \<le> Max (insert 0 ((\<lambda>(k, v). max (depth k) (depth v)) ` set kvs))"
      by (intro Max_ge) (auto intro!: rev_image_eqI[of "(x, v)"])
    then show ?thesis by simp
  qed
  then have "depths xs \<le> Max (insert 0 ((\<lambda>(k, v). max (depth k) (depth v)) ` set kvs))"
    unfolding depths_def xs by (intro Max.boundedI) auto
  with PDict show ?thesis by simp
next
  case (PStr s)
  assume "iter_values obj = Inr xs"
  with PStr have "xs = map (\<lambda>c. PStr [c]) s" by simp
  then have e: "insert 0 (depth ` set xs) = {0}" by auto
  have "depths xs = Max {0}" unfolding depths_def e ..
  then have "depths xs = 0" by simp
  then show ?thesis by simp
qed auto

lemma depth_values: "(k, v) \<in> set kvs \<Longrightarrow> depth v < depth (PDict kvs)"
proof -
  assume kv: "(k, v) \<in> set kvs"
  then have "max (depth k) (depth v) \<le> Max (insert 0 ((\<lambda>(k, v). max (depth k) (depth v)) ` set kvs))"
    by (intro Max_ge) (auto intro!: rev_image_eqI[of "(k, v)"])
  then show ?thesis by simp
qed

lemma depth_attrs: "(n, v) \<in> set attrs \<Longrightarrow> depth v < depth (PRecord r attrs)"
proof -
  assume kv: "(n, v) \<in> set attrs"
  then have "depth v \<le> Max (insert 0 ((\<lambda>(n, v). depth v) ` set attrs))"
    by (intro Max_ge) (auto intro!: rev_image_eqI[of "(n, v)"])
  then show ?thesis by simp
qed

lemma depth_getattr: "getattr rcd name = Inr v \<Longrightarrow> depth v < depth rcd"
  by (cases rcd) (auto split: option.splits dest!: map_of_SomeD depth_attrs)

lemma depth_getitem: "getitem obj k = Inr v \<Longrightarrow> depth v < depth obj"
  by (cases obj) (auto split: option.splits dest!: map_of_SomeD depth_values)

lemma depths_items: "depths (map snd kvs) < depth (PDict kvs)"
proof -
  have "depths (map snd kvs) \<le> Max (insert 0 ((\<lambda>(k, v). max (depth k) (depth v)) ` set kvs))"
    unfolding depths_def
  proof (intro Max.boundedI)
    fix a assume "a \<in> insert 0 (depth ` set (map snd kvs))"
    then consider "a = 0" | k v where "(k, v) \<in> set kvs" "a = depth v" by auto
    then show "a \<le> Max (insert 0 ((\<lambda>(k, v). max (depth k) (depth v)) ` set kvs))"
    proof cases
      case 1
      then show ?thesis by simp
    next
      case 2
      then have "max (depth k) (depth v) \<le> Max (insert 0 ((\<lambda>(k, v). max (depth k) (depth v)) ` set kvs))"
        by (intro Max_ge) (auto intro!: rev_image_eqI[of "(k, v)"])
      with 2 show ?thesis by simp
    qed
  qed auto
  then show ?thesis by simp
qed

text \<open>
  \<^verbatim>\<open>FieldMixin.avro_dump\<close>, inherited by the scalar kinds, then \<^verbatim>\<open>avro_dump\<close> of every kind
  with the list comprehension of \<^verbatim>\<open>ListMixin\<close> (\<open>avro_dump_list\<close>), the pairs of
  \<^verbatim>\<open>MapMixin\<close> (\<open>avro_dump_items\<close>), \<^verbatim>\<open>to_json_compatible\<close> and its loop.
\<close>

definition field_avro_dump :: "'r core \<Rightarrow> 'r env \<Rightarrow> 'r field \<Rightarrow> 'r pyval \<Rightarrow> error + 'r pyval" where
  "field_avro_dump c env f obj =
     (if obj = PNone then Inr PNone
      else if nullable f then
        (case dump c f obj of
           Inl e \<Rightarrow> Inl e
         | Inr j \<Rightarrow> Inr (PDict [(PStr (avro_type_name env f), j)]))
      else dump c f obj)"

function (sequential)
  avro_dump :: "'r core \<Rightarrow> 'r env \<Rightarrow> 'r field \<Rightarrow> 'r pyval \<Rightarrow> error + 'r pyval"
and avro_dump_list :: "'r core \<Rightarrow> 'r env \<Rightarrow> 'r field \<Rightarrow> 'r pyval list \<Rightarrow> error + 'r pyval list"
and avro_dump_items ::
  "'r core \<Rightarrow> 'r env \<Rightarrow> 'r field \<Rightarrow> 'r field \<Rightarrow> ('r pyval \<times> 'r pyval) list
     \<Rightarrow> error + ('r pyval \<times> 'r pyval) list"
and to_json_compatible :: "'r core \<Rightarrow> 'r env \<Rightarrow> 'r pyval \<Rightarrow> error + 'r pyval"
and to_json_compatible_loop ::
  "'r core \<Rightarrow> 'r env \<Rightarrow> 'r pyval \<Rightarrow> (string \<times> 'r field) list \<Rightarrow> ('r pyval \<times> 'r pyval) list
     \<Rightarrow> error + 'r pyval"
where
  "avro_dump c env (List t n d) obj =
     (if obj = PNone then Inr PNone
      else case iter_values obj of
             Inl e \<Rightarrow> Inl e
           | Inr os \<Rightarrow>
               (case avro_dump_list c env t os of
                  Inl e \<Rightarrow> Inl e
                | Inr l \<Rightarrow>
                    (if n then Inr (PDict [(PStr (avro_type_name env (List t n d)), PList l)])
                     else Inr (PList l))))"
| "avro_dump c env (SubRecord r n d) obj =
     (if obj = PNone then Inr PNone
      else case to_json_compatible c env obj of
             Inl e \<Rightarrow> Inl e
           | Inr j \<Rightarrow>
               (if n then Inr (PDict [(PStr (avro_type_name env (SubRecord r n d)), j)])
                else Inr j))"
| "avro_dump c env (Map k v n d) obj =
     (if obj = PNone then Inr PNone
      else case iteritems obj of
             Inl e \<Rightarrow> Inl e
           | Inr kvs \<Rightarrow>
               (case avro_dump_items c env k v kvs of
                  Inl e \<Rightarrow> Inl e
                | Inr pairs \<Rightarrow>
                    (case dict_of pairs [] of
                       Inl e \<Rightarrow> Inl e
                     | Inr m \<Rightarrow>
                         (if n then Inr (PDict [(PStr (avro_type_name env (Map k v n d)), PDict m)])
                          else Inr (PDict m)))))"
| "avro_dump c env f obj = field_avro_dump c env f obj"
| "avro_dump_list c env t [] = Inr []"
| "avro_dump_list c env t (x # xs) =
     (case avro_dump c env t x of
        Inl e \<Rightarrow> Inl e
      | Inr j \<Rightarrow>
          (case avro_dump_list c env t xs of
             Inl e \<Rightarrow> Inl e
           | Inr js \<Rightarrow> Inr (j # js)))"
| "avro_dump_items c env k v [] = Inr []"
| "avro_dump_items c env k v ((a, b) # rest) =
     (case dump c k a of
        Inl e \<Rightarrow> Inl e
      | Inr ja \<Rightarrow>
          (case avro_dump c env v b of
             Inl e \<Rightarrow> Inl e
           | Inr jb \<Rightarrow>
               (case avro_dump_items c env k v rest of
                  Inl e \<Rightarrow> Inl e
                | Inr pairs \<Rightarrow> Inr ((ja, jb) # pairs))))"
| "to_json_compatible c env (PRecord r attrs) =
     to_json_compatible_loop c env (PRecord r attrs) (fields (env r)) []"
| "to_json_compatible c env obj = Inl AttributeError"
| "to_json_compatible_loop c env rcd [] dct = Inr (PDict dct)"
| "to_json_compatible_loop c env rcd ((name, fieldtype) # rest) dct =
     (case getattr rcd name of
        Inl e \<Rightarrow> Inl e
      | Inr val \<Rightarrow>
          (case avro_dump c env fieldtype val of
             Inl e \<Rightarrow> Inl e
           | Inr j \<Rightarrow> to_json_compatible_loop c env rcd rest (setitem dct (PStr name) j)))"
  by pat_completeness auto

termination avro_dump
proof (relation "inv_image (less_than <*lex*> less_than <*lex*> less_than)
   (\<lambda>x. case x of
      Inl (Inl (c, env, f, obj)) \<Rightarrow> (depth obj, size f + 2, 0)
    | Inl (Inr (c, env, t, xs)) \<Rightarrow> (depths xs, size t + 2, length xs + 1)
    | Inr (Inl (c, env, k, v, kvs)) \<Rightarrow> (depths (map snd kvs), size v + 2, length kvs + 1)
    | Inr (Inr (Inl (c, env, obj))) \<Rightarrow> (depth obj, 1, 0)
    | Inr (Inr (Inr (c, env, rcd, fs, dct))) \<Rightarrow> (depth rcd, 0, length fs))", goal_cases)
  case 1
  then show ?case by (intro wf_inv_image wf_lex_prod wf_less_than)
next
  case (2 c env t n d obj os)
  then show ?case using depths_iter_values[of obj os] by auto
next
  case (3 c env r n d obj)
  then show ?case by simp
next
  case (4 c env k v n d obj kvs)
  then show ?case using depths_items[of kvs] by (cases obj) auto
next
  case (5 c env t x xs)
  then show ?case by (auto simp: depths_Cons)
next
  case (6 c env t x xs j)
  then show ?case by (auto simp: depths_Cons)
next
  case (7 c env k v a b rest ja)
  then show ?case by (auto simp: depths_Cons)
next
  case (8 c env k v a b rest ja jb)
  then show ?case by (auto simp: depths_Cons)
next
  case (9 c env r attrs)
  then show ?case by simp
next
  case (10 c env rcd name fieldtype rest dct val)
  then show ?case using depth_getattr[of rcd name val] by simp
next
  case (11 c env rcd name fieldtype rest dct val j)
  then show ?case by simp
qed

text \<open>\<^verbatim>\<open>FieldMixin.avro_load\<close>, and \<^verbatim>\<open>schema._fields.get(key)\<close>.\<close>

definition field_avro_load :: "'r core \<Rightarrow> 'r env \<Rightarrow> 'r field \<Rightarrow> 'r pyval \<Rightarrow> error + 'r pyval" where
  "field_avro_load c env f obj =
     (if obj = PNone then Inr PNone
      else if nullable f then
        (case getitem obj (avro_type_name env f) of
           Inl e \<Rightarrow> Inl e
         | Inr x \<Rightarrow> load c f x)
      else load c f obj)"

fun fields_get ::
  "(string \<times> 'r field) list \<Rightarrow> 'r pyval \<Rightarrow> error + (string \<times> 'r field) option" where
  "fields_get fs (PStr k) =
     (case map_of fs k of Some f \<Rightarrow> Inr (Some (k, f)) | None \<Rightarrow> Inr None)"
| "fields_get fs key = (if hashable key then Inr None else Inl TypeError)"

text \<open>The message of the parse error that \<^verbatim>\<open>from_json_compatible\<close> raises.\<close>

definition py_str :: "'r core \<Rightarrow> 'r pyval \<Rightarrow> string" where
  "py_str c obj = (case obj of PStr s \<Rightarrow> s | _ \<Rightarrow> str_of c obj)"

definition unexpected_field :: "'r core \<Rightarrow> 'r schema \<Rightarrow> 'r pyval \<Rightarrow> error" where
  "unexpected_field c schema key =
     ParseError (''Unexpected field encountered in line for record ''
                 @ cls_name schema @ '': '' @ py_str c key)"

text \<open>
  Modelled from the spec: record construction \<^verbatim>\<open>schema(**kwargs)\<close> of \<^verbatim>\<open>pyschema.core\<close>,
  which is not under the sources. An instance holds one attribute per declared field, in
  the order of the fields: the value passed for it, or, for a field absent from the
  input, its declared default.
\<close>

definition new_record :: "'r env \<Rightarrow> 'r \<Rightarrow> (string \<times> 'r pyval) list \<Rightarrow> 'r pyval" where
  "new_record env schema kwargs =
     PRecord schema
       (map (\<lambda>(name, f). (name, case map_of kwargs name of Some v \<Rightarrow> v | None \<Rightarrow> default_v f))
            (fields (env schema)))"

text \<open>
  \<^verbatim>\<open>avro_load\<close> of every kind, with the comprehension of \<^verbatim>\<open>ListMixin\<close>, the pairs of
  \<^verbatim>\<open>MapMixin\<close>, \<^verbatim>\<open>from_json_compatible\<close> and its loop over the keys of the input.
\<close>

function (sequential)
  avro_load :: "'r core \<Rightarrow> 'r env \<Rightarrow> 'r field \<Rightarrow> 'r pyval \<Rightarrow> error + 'r pyval"
and avro_load_list :: "'r core \<Rightarrow> 'r env \<Rightarrow> 'r field \<Rightarrow> 'r pyval list \<Rightarrow> error + 'r pyval list"
and avro_load_items ::
  "'r core \<Rightarrow> 'r env \<Rightarrow> 'r field \<Rightarrow> 'r field \<Rightarrow> ('r pyval \<times> 'r pyval) list
     \<Rightarrow> error + ('r pyval \<times> 'r pyval) list"
and from_json_compatible :: "'r core \<Rightarrow> 'r env \<Rightarrow> 'r \<Rightarrow> 'r pyval \<Rightarrow> error + 'r pyval"
and from_json_compatible_loop ::
  "'r core \<Rightarrow> 'r env \<Rightarrow> 'r \<Rightarrow> 'r pyval \<Rightarrow> 'r pyval list \<Rightarrow> (string \<times> 'r pyval) list
     \<Rightarrow> error + 'r pyval"
where
  "avro_load c env (List t n d) obj =
     (if obj = PNone then Inr PNone
      else case (if n then getitem obj (avro_type_name env (List t n d)) else Inr obj) of
             Inl e \<Rightarrow> Inl e
           | Inr obj' \<Rightarrow>
               (case iter_values obj' of
                  Inl e \<Rightarrow> Inl e
                | Inr os \<Rightarrow>
                    (case avro_load_list c env t os of
                       Inl e \<Rightarrow> Inl e
                     | Inr l \<Rightarrow> Inr (PList l))))"
| "avro_load c env (SubRecord r n d) obj =
     (if obj = PNone then Inr PNone
      else if n then
        (case getitem obj (avro_type_name env (SubRecord r n d)) of
           Inl e \<Rightarrow> Inl e
         | Inr x \<Rightarrow> from_json_compatible c env r x)
      else from_json_compatible c env r obj)"
| "avro_load c env (Map k v n d) obj =
     (if obj = PNone then Inr PNone
      else case (if n then getitem obj (avro_type_name env (Map k v n d)) else Inr obj) of
             Inl e \<Rightarrow> Inl e
           | Inr obj' \<Rightarrow>
               (case iteritems obj' of
                  Inl e \<Rightarrow> Inl e
                | Inr kvs \<Rightarrow>
                    (case avro_load_items c env k v kvs of
                       Inl e \<Rightarrow> Inl e
                     | Inr pairs \<Rightarrow>
                         (case dict_of pairs [] of
                            Inl e \<Rightarrow> Inl e
                          | Inr m \<Rightarrow> Inr (PDict m)))))"
| "avro_load c env f obj = field_avro_load c env f obj"
| "avro_load_list c env t [] = Inr []"
| "avro_load_list c env t (x # xs) =
     (case avro_load c env t x of
        Inl e \<Rightarrow> Inl e
      | Inr y \<Rightarrow>
          (case avro_load_list c env t xs of
             Inl e \<Rightarrow> Inl e
           | Inr ys \<Rightarrow> Inr (y # ys)))"
| "avro_load_items c env k v [] = Inr []"
| "avro_load_items c env k v ((a, b) # rest) =
     (case load c k a of
        Inl e \<Rightarrow> Inl e
      | Inr ka \<Rightarrow>
          (case avro_load c env v b of
             Inl e \<Rightarrow> Inl e
           | Inr vb \<Rightarrow>
               (case avro_load_items c env k v rest of
                  Inl e \<Rightarrow> Inl e
                | Inr pairs \<Rightarrow> Inr ((ka, vb) # pairs))))"
| "from_json_compatible c env schema dct =
     (case iter_values dct of
        Inl e \<Rightarrow> Inl e
      | Inr keys \<Rightarrow> from_json_compatible_loop c env schema dct keys [])"
| "from_json_compatible_loop c env schema dct [] kwargs = Inr (new_record env schema kwargs)"
| "from_json_compatible_loop c env schema dct (key # keys) kwargs =
     (case fields_get (fields (env schema)) key of
        Inl e \<Rightarrow> Inl e
      | Inr None \<Rightarrow> Inl (unexpected_field c (env schema) key)
      | Inr (Some (k, ftype)) \<Rightarrow>
          (case getitem dct k of
             Inl e \<Rightarrow> Inl e
           | Inr x \<Rightarrow>
               (case avro_load c env ftype x of
                  Inl e \<Rightarrow> Inl e
                | Inr val \<Rightarrow>
                    from_json_compatible_loop c env schema dct keys (setitem kwargs k val))))"
  by pat_completeness auto

termination avro_load
proof (relation "inv_image (less_than <*lex*> less_than <*lex*> less_than)
   (\<lambda>x. case x of
      Inl (Inl (c, env, f, obj)) \<Rightarrow> (depth obj, size f + 2, 0)
    | Inl (Inr (c, env, t, xs)) \<Rightarrow> (depths xs, size t + 2, length xs + 1)
    | Inr (Inl (c, env, k, v, kvs)) \<Rightarrow> (depths (map snd kvs), size v + 2, length kvs + 1)
    | Inr (Inr (Inl (c, env, schema, dct))) \<Rightarrow> (depth dct, 1, 0)
    | Inr (Inr (Inr (c, env, schema, dct, keys, kwargs))) \<Rightarrow> (depth dct, 0, length keys))",
    goal_cases)
  case 1
  then show ?case by (intro wf_inv_image wf_lex_prod wf_less_than)
next
  case (2 c env t n d obj obj' os)
  then show ?case
    using depths_iter_values[of obj' os] depth_getitem[of obj "avro_type_name env (List t n d)" obj']
    by (auto split: if_splits)
next
  case (3 c env r n d obj x)
  then show ?case using depth_getitem[of obj "avro_type_name env (SubRecord r n d)" x] by simp
next
  case (4 c env r n d obj)
  then show ?case by simp
next
  case (5 c env k v n d obj obj' kvs)
  then show ?case
    using depths_items[of kvs] depth_getitem[of obj "avro_type_name env (Map k v n d)" obj']
    by (cases obj') (auto split: if_splits)
next
  case (6 c env t x xs)
  then show ?case by (auto simp: depths_Cons)
next
  case (7 c env t x xs y)
  then show ?case by (auto simp: depths_Cons)
next
  case (8 c env k v a b rest ka)
  then show ?case by (auto simp: depths_Cons)
next
  case (9 c env k v a b rest ka vb)
  then show ?case by (auto simp: depths_Cons)
next
  case (10 c env schema dct keys)
  then show ?case by simp
next
  case 11
  then show ?case by (auto dest: depth_getitem)
next
  case 12
  then show ?case by simp
qed

section \<open>Valid values\<close>

text \<open>
  The values a scalar field holds besides \<open>None\<close>: a Boolean holds a bool, an Integer an
  int, a Float a float, Bytes and Text a string, an Enum one of its symbols.
\<close>

fun valid_scalar :: "'r field \<Rightarrow> 'r pyval \<Rightarrow> bool" where
  "valid_scalar (Boolean n d) (PBool b) = True"
| "valid_scalar (Integer sz n d) (PInt i) = True"
| "valid_scalar (Float sz n d) (PFloat x) = True"
| "valid_scalar (Bytes n d) (PStr s) = True"
| "valid_scalar (Text n d) (PStr s) = True"
| "valid_scalar (Enum vs n d) (PStr s) = (s \<in> set vs)"
| "valid_scalar f obj = False"

text \<open>
  The values a field holds: \<open>None\<close>; for a scalar kind as above; for a List a list of values
  of the element kind; for a Map a dictionary from values of the key kind to values of
  the value kind; for a SubRecord an instance of the class, with one attribute per field,
  in the order of the fields, each a value of its field.
\<close>

lemma size_map_of:
  "map_of kvs k = Some v \<Longrightarrow> size v < Suc (size_list (size_prod size size) kvs)"
  by (induction kvs) (auto split: if_splits)

lemma size_member:
  "x \<in> set xs \<Longrightarrow> size x < Suc (size_list size xs)"
  by (induction xs) auto

lemma size_values: "p \<in> set kvs \<Longrightarrow> size (snd p) < Suc (size_list (size_prod size size) kvs)"
  by (induction kvs) auto

lemma size_attrs:
  "p \<in> set attrs \<Longrightarrow> size (snd p) < Suc (size_list (size_prod (\<lambda>x. 0) size) attrs)"
  by (induction attrs) auto

function (sequential) valid :: "'r env \<Rightarrow> 'r field \<Rightarrow> 'r pyval \<Rightarrow> bool" where
  "valid env f PNone = True"
| "valid env (List t n d) (PList xs) = (\<forall>x \<in> set xs. valid env t x)"
| "valid env (Map k v n d) (PDict kvs) =
     (distinct (map fst kvs) \<and> (\<forall>p \<in> set kvs. valid_scalar k (fst p) \<and> valid env v (snd p)))"
| "valid env (SubRecord r n d) (PRecord r' attrs) =
     (r' = r \<and> distinct (map fst (fields (env r))) \<and> map fst attrs = map fst (fields (env r)) \<and>
      (\<forall>p \<in> set attrs. case map_of (fields (env r)) (fst p) of
                           Some f \<Rightarrow> valid env f (snd p)
                         | None \<Rightarrow> False))"
| "valid env f obj = valid_scalar f obj"
  by pat_completeness auto
termination
proof (relation "measure (\<lambda>(env, f, obj). size obj)", goal_cases)
  case 1
  then show ?case by simp
next
  case (2 env t n d xs x)
  then show ?case using size_member[of x xs] by simp
next
  case (3 env k v n d kvs p)
  then show ?case using size_values[of p kvs] by simp
next
  case (4 env r n d r' attrs p f)
  then show ?case using size_attrs[of p attrs] by simp
qed

text \<open>
  What the codec needs of the scalar \<^verbatim>\<open>dump\<close> and \<^verbatim>\<open>load\<close> it is given: a valid scalar
  is encoded as an object that is not \<open>None\<close> and can be a dictionary key, and decoding
  that object gives the scalar back.
\<close>

definition scalar_roundtrip :: "'r core \<Rightarrow> bool" where
  "scalar_roundtrip c \<longleftrightarrow>
     (\<forall>f obj. valid_scalar f obj \<longrightarrow>
        (\<exists>j. dump c f obj = Inr j \<and> j \<noteq> PNone \<and> hashable j \<and> load c f j = Inr obj))"

section \<open>Batch adapter\<close>

text \<open>
  \<^verbatim>\<open>mr_writer\<close> of \<^verbatim>\<open>pyschema/contrib/luigi.py\<close>. The two streams are the lists of lines
  printed so far; the result says which exception left the loop, if any. \<^verbatim>\<open>dumps\<close> is the
  encoder the caller passes.
\<close>

fun mr_writer ::
  "'j \<Rightarrow> ('a \<Rightarrow> error + string) \<Rightarrow> 'a list \<Rightarrow> string list \<Rightarrow> string list
     \<Rightarrow> error option \<times> string list \<times> string list" where
  "mr_writer job dumps [] output_stream stderr = (None, output_stream, stderr)"
| "mr_writer job dumps (output # outputs) output_stream stderr =
     (case dumps output of
        Inr line \<Rightarrow> mr_writer job dumps outputs (output_stream @ [line]) stderr
      | Inl err \<Rightarrow>
          (case err of
             ParseError e \<Rightarrow> (Some (ParseError e), output_stream, stderr @ [e])
           | _ \<Rightarrow> (Some err, output_stream, stderr)))"

section \<open>Reading documents\<close>

text \<open>Item lookup and key membership on a Python object; a non-dictionary has no items.\<close>

definition get_item :: "'r pyval \<Rightarrow> string \<Rightarrow> 'r pyval option" where
  "get_item d k = (case d of PDict kvs \<Rightarrow> map_of kvs (PStr k) | _ \<Rightarrow> None)"

definition has_key :: "'r pyval \<Rightarrow> string \<Rightarrow> bool" where
  "has_key d k = (case d of PDict kvs \<Rightarrow> PStr k \<in> fst ` set kvs | _ \<Rightarrow> False)"

text \<open>
  The full record definitions a type document holds, in the order they appear: for each,
  its \<open>name\<close> and its \<open>namespace\<close> item. A list in a type position is a union, whose
  members are read; of a field entry only the \<open>type\<close> is read, never the \<open>default\<close>.
\<close>

function record_defs :: "'r pyval \<Rightarrow> (string \<times> string option) list" where
  "record_defs (PList ts) = concat (map record_defs ts)"
| "record_defs (PDict kvs) =
     (case map_of kvs (PStr ''type'') of
        Some (PStr t) \<Rightarrow>
          (if t = ''array'' then
             (case map_of kvs (PStr ''items'') of Some items \<Rightarrow> record_defs items | None \<Rightarrow> [])
           else if t = ''map'' then
             (case map_of kvs (PStr ''values'') of Some vals \<Rightarrow> record_defs vals | None \<Rightarrow> [])
           else if t = ''record'' then
             ((case map_of kvs (PStr ''name'') of Some (PStr n) \<Rightarrow> n | _ \<Rightarrow> []),
              (case map_of kvs (PStr ''namespace'') of Some (PStr ns) \<Rightarrow> Some ns | _ \<Rightarrow> None))
             # (case map_of kvs (PStr ''fields'') of
                  Some (PList specs) \<Rightarrow>
                    concat (map (\<lambda>spec. case spec of
                                   PDict entry \<Rightarrow>
                                     (case map_of entry (PStr ''type'') of
                                        Some ty \<Rightarrow> record_defs ty
                                      | None \<Rightarrow> [])
                                 | _ \<Rightarrow> []) specs)
                | _ \<Rightarrow> [])
           else [])
      | _ \<Rightarrow> [])"
| "record_defs PNone = []"
| "record_defs NO_DEFAULT = []"
| "record_defs (PBool b) = []"
| "record_defs (PInt i) = []"
| "record_defs (PFloat x) = []"
| "record_defs (PStr s) = []"
| "record_defs (PRecord r attrs) = []"
  by pat_completeness auto
termination
proof (relation "measure size", goal_cases)
  case 1
  then show ?case by simp
next
  case (2 ts x)
  then show ?case using size_member[of x ts] by simp
next
  case (3 kvs x2 x6 x2a)
  then show ?case using size_map_of[of kvs "PStr ''items''" x2a] by simp
next
  case (4 kvs x2 x6 x2a)
  then show ?case using size_map_of[of kvs "PStr ''values''" x2a] by simp
next
  case (5 kvs x2 x6 x2a x7 x entry ty)
  then show ?case
    using size_map_of[of kvs "PStr ''fields''" x2a] size_member[of x x7]
      size_map_of[of entry "PStr ''type''" ty]
    by simp
qed










section \<open>Example schemas\<close>

text \<open>
  Two classes: \<open>Outer\<close> (namespace \<open>ns\<close>) refers to \<open>Inner\<close> twice, and \<open>Inner\<close> refers
  to itself. The documents below are what \<^verbatim>\<open>get_schema_dict\<close> returns for \<open>Outer\<close>.
\<close>

definition env_two :: "bool env" where
  "env_two r =
     (if r then Schema ''Outer'' ''Outer'' (Some ''ns'')
                 [(''foo'', Text False NO_DEFAULT),
                  (''opt'', Integer 8 True PNone),
                  (''n'', Integer 4 True (PInt 7)),
                  (''inner'', SubRecord False True NO_DEFAULT),
                  (''again'', List (SubRecord False False NO_DEFAULT) False (PList []))]
      else Schema ''Inner'' ''Inner'' None
                 [(''self'', SubRecord False True PNone),
                  (''tags'', Map (Text False NO_DEFAULT) (Enum [''a'', ''b''] False NO_DEFAULT) False NO_DEFAULT)])"

definition inner_doc :: "bool pyval" where
  "inner_doc = PDict [(PStr ''type'', PStr ''record''), (PStr ''name'', PStr ''Inner''),
       (PStr ''fields'', PList [
          PDict [(PStr ''name'', PStr ''self''), (PStr ''type'', PList [PStr ''null'', PStr ''Inner'']),
                 (PStr ''default'', PNone)],
          PDict [(PStr ''name'', PStr ''tags''),
                 (PStr ''type'', PDict [(PStr ''type'', PStr ''map''),
                    (PStr ''values'', PDict [(PStr ''type'', PStr ''enum''), (PStr ''name'', PStr ''ENUM''),
                        (PStr ''symbols'', PList [PStr ''a'', PStr ''b''])])])]])]"

definition outer_fields :: "bool pyval list" where
  "outer_fields =
         [PDict [(PStr ''name'', PStr ''foo''), (PStr ''type'', PStr ''string'')],
          PDict [(PStr ''name'', PStr ''opt''), (PStr ''type'', PList [PStr ''null'', PStr ''long'']),
                 (PStr ''default'', PNone)],
          PDict [(PStr ''name'', PStr ''n''), (PStr ''type'', PList [PStr ''int'', PStr ''null'']),
                 (PStr ''default'', PInt 7)],
          PDict [(PStr ''name'', PStr ''inner''), (PStr ''type'', PList [PStr ''null'', inner_doc])],
          PDict [(PStr ''name'', PStr ''again''),
                 (PStr ''type'', PDict [(PStr ''type'', PStr ''array''), (PStr ''items'', PStr ''Inner'')]),
                 (PStr ''default'', PList [])]]"

definition outer_doc :: "(bool pyval \<times> bool pyval) list" where
  "outer_doc = [(PStr ''type'', PStr ''record''), (PStr ''name'', PStr ''Outer''),
       (PStr ''namespace'', PStr ''ns''),
       (PStr ''fields'', PList outer_fields)]"

text \<open>
  A stand-in for the scalar codec of \<^verbatim>\<open>pyschema.types\<close>: every object is its own
  encoding.
\<close>

definition identity_core :: "'r core" where
  "identity_core = Core (\<lambda>f obj. Inr obj) (\<lambda>f obj. Inr obj) (\<lambda>obj. ''object'')"

text \<open>A class with two required fields and a nullable one.\<close>

definition env_opt :: "bool env" where
  "env_opt r = Schema ''MyRecord'' ''MyRecord'' None
     [(''foo'', Text False NO_DEFAULT),
      (''bar'', Integer 4 False NO_DEFAULT),
      (''opt'', Integer 8 True PNone)]"

text \<open>An instance of that class and its JSON-compatible form.\<close>

definition my_record :: "bool pyval" where
  "my_record = PRecord True [(''foo'', PStr ''x''), (''bar'', PInt 5), (''opt'', PInt 7)]"

definition my_record_json :: "bool pyval" where
  "my_record_json = PDict [(PStr ''foo'', PStr ''x''), (PStr ''bar'', PInt 5),
                           (PStr ''opt'', PDict [(PStr ''long'', PInt 7)])]"

text \<open>An encoder that fails on the record \<open>0\<close>.\<close>

definition dumps_ex :: "nat \<Rightarrow> error + string" where
  "dumps_ex n = (if n = 0 then Inl (ParseError ''bad record'') else Inr (replicate n CHR ''x''))"



text \<open>A class with a map keyed by integers.\<close>

definition env_bad :: "bool env" where
  "env_bad r = Schema ''Bad'' ''Bad'' None
     [(''ok'', Text True PNone),
      (''m'', Map (Integer 8 False NO_DEFAULT) (Text False NO_DEFAULT) False NO_DEFAULT)]"

section \<open>Properties of schema generation\<close>

declare get_schema_dict.simps [simp del] avro_type_schema.simps [simp del]
declare record_defs.simps(2) [simp del]

lemma env_two_run:
  "get_schema_dict env_two True None = Inr (PDict outer_doc, {''ns.Outer'', ''Inner''})"
  by (simp add: get_schema_dict.simps avro_type_schema.simps env_two_def record_name_def
      avro_default_value_def outer_doc_def outer_fields_def inner_doc_def insert_commute)

lemma avro_fields_loop_specs:
  "avro_fields_loop env fs st = Inr (specs, st') \<Longrightarrow>
   length specs = length fs \<and>
   (\<forall>i<length fs. \<exists>ty. specs ! i =
      PDict ([(PStr ''name'', PStr (fst (fs ! i))), (PStr ''type'', ty)]
             @ (if default_v (snd (fs ! i)) \<noteq> NO_DEFAULT
                then [(PStr ''default'', default_v (snd (fs ! i)))] else [])))"
proof (induction fs arbitrary: st specs)
  case Nil
  then show ?case by simp
next
  case (Cons a fs)
  obtain field_name ftype where a: "a = (field_name, ftype)" by (cases a)
  from Cons.prems a obtain ty st1 specs' where
    ty: "avro_type_schema env ftype st = Inr (ty, st1)" and
    rest: "avro_fields_loop env fs st1 = Inr (specs', st')" and
    specs: "specs = PDict ([(PStr ''name'', PStr field_name), (PStr ''type'', ty)]
                 @ (if default_v ftype \<noteq> NO_DEFAULT
                    then [(PStr ''default'', avro_default_value ftype)] else [])) # specs'"
    by (auto simp: Let_def split: sum.splits)
  from Cons.IH[OF rest] have len: "length specs' = length fs" and
    ih: "\<forall>i<length fs. \<exists>ty. specs' ! i =
      PDict ([(PStr ''name'', PStr (fst (fs ! i))), (PStr ''type'', ty)]
             @ (if default_v (snd (fs ! i)) \<noteq> NO_DEFAULT
                then [(PStr ''default'', default_v (snd (fs ! i)))] else []))"
    by auto
  show ?case
  proof (intro conjI allI impI)
    show "length specs = length (a # fs)" using len specs by simp
  next
    fix i assume "i < length (a # fs)"
    then show "\<exists>ty. specs ! i =
      PDict ([(PStr ''name'', PStr (fst ((a # fs) ! i))), (PStr ''type'', ty)]
             @ (if default_v (snd ((a # fs) ! i)) \<noteq> NO_DEFAULT
                then [(PStr ''default'', default_v (snd ((a # fs) ! i)))] else []))"
      using ih specs a by (cases i) (auto simp: avro_default_value_def)
  qed
qed

lemma get_schema_dict_fields:
  assumes "get_schema_dict env r so = Inr (PDict doc, st')"
  shows "\<exists>specs st. avro_fields_loop env (fields (env r)) st = Inr (specs, st') \<and>
            map_of doc (PStr ''fields'') = Some (PList specs)"
  using assms
  by (auto simp: get_schema_dict.simps Let_def split: if_splits sum.splits option.splits)

lemma schema_errors:
  "get_schema_dict env r so = Inl e \<longrightarrow> e = AssertionError"
  "avro_fields_loop env fs st = Inl e \<longrightarrow> e = AssertionError"
  "avro_type_schema env f st = Inl e \<longrightarrow> e = AssertionError"
  "simplified_avro_type_schema env f st = Inl e \<longrightarrow> e = AssertionError"
proof (induct env r so and env fs st and env f st and env f st
    rule: get_schema_dict_avro_fields_loop_avro_type_schema_simplified_avro_type_schema.induct)
  case (1 env rcd state)
  then show ?case
    by (auto simp: get_schema_dict.simps Let_def split: sum.splits if_splits)
next
  case (3 env field_name ftype rest st)
  then show ?case by (auto simp: Let_def split: sum.splits)
next
  case (4 env f st)
  then show ?case by (auto simp: avro_type_schema.simps split: sum.splits if_splits)
next
  case (5 env t n d st)
  then show ?case by (auto split: sum.splits)
next
  case (8 env k v n d st)
  then show ?case by (auto split: sum.splits if_splits)
qed simp_all

lemma avro_fields_loop_fails:
  assumes bad: "\<And>st. avro_type_schema env f st = Inl AssertionError"
    and mem: "(name, f) \<in> set fs"
  shows "avro_fields_loop env fs st = Inl AssertionError"
  using mem
proof (induction fs arbitrary: st)
  case Nil
  then show ?case by simp
next
  case (Cons a fs)
  obtain field_name ftype where a: "a = (field_name, ftype)" by (cases a)
  show ?case
  proof (cases "avro_type_schema env ftype st")
    case (Inl e)
    with schema_errors(3)[of env ftype st e] a show ?thesis by simp
  next
    case (Inr res)
    obtain ty st1 where res: "res = (ty, st1)" by (cases res)
    from Inr bad a have "ftype \<noteq> f" by auto
    with Cons.prems a have "(name, f) \<in> set fs" by auto
    from Cons.IH[OF this] have "avro_fields_loop env fs st1 = Inl AssertionError" .
    with Inr res a show ?thesis by (simp add: Let_def)
  qed
qed

lemma declared_mono_all:
  "\<forall>d st'. get_schema_dict env r so = Inr (d, st') \<longrightarrow>
      (case so of Some s \<Rightarrow> s | None \<Rightarrow> {}) \<subseteq> st'"
  "\<forall>ds st'. avro_fields_loop env fs st = Inr (ds, st') \<longrightarrow> st \<subseteq> st'"
  "\<forall>d st'. avro_type_schema env f st = Inr (d, st') \<longrightarrow> st \<subseteq> st'"
  "\<forall>d st'. simplified_avro_type_schema env f st = Inr (d, st') \<longrightarrow> st \<subseteq> st'"
proof (induct env r so and env fs st and env f st and env f st
    rule: get_schema_dict_avro_fields_loop_avro_type_schema_simplified_avro_type_schema.induct)
  case (1 env rcd state)
  then show ?case
    by (auto simp: get_schema_dict.simps Let_def split: sum.splits if_splits option.splits)
next
  case (3 env field_name ftype rest st)
  then show ?case by (fastforce simp: Let_def split: sum.splits prod.splits)
next
  case (4 env f st)
  then show ?case by (auto simp: avro_type_schema.simps split: sum.splits if_splits)
next
  case (5 env t n d st)
  then show ?case by (auto split: sum.splits)
next
  case (7 env r n d st)
  then show ?case by (auto split: sum.splits)
next
  case (8 env k v n d st)
  then show ?case by (auto split: sum.splits if_splits)
qed simp_all

lemma declared_mono:
  "get_schema_dict env r so = Inr (d, st') \<Longrightarrow> (case so of Some s \<Rightarrow> s | None \<Rightarrow> {}) \<subseteq> st'"
  "avro_fields_loop env fs st = Inr (ds, st') \<Longrightarrow> st \<subseteq> st'"
  "avro_type_schema env f st = Inr (d, st') \<Longrightarrow> st \<subseteq> st'"
  "simplified_avro_type_schema env f st = Inr (d, st') \<Longrightarrow> st \<subseteq> st'"
  using declared_mono_all(1)[of env r so] declared_mono_all(2)[of env fs st]
    declared_mono_all(3)[of env f st] declared_mono_all(4)[of env f st]
  by blast+

lemma get_schema_dict_declares:
  assumes "get_schema_dict env r so = Inr (d, st')"
  shows "record_name (env r) \<in> st'"
proof (cases "record_name (env r) \<in> (case so of Some s \<Rightarrow> s | None \<Rightarrow> {})")
  case True
  with assms show ?thesis by (auto simp: get_schema_dict.simps Let_def)
next
  case False
  with assms obtain specs where
    "avro_fields_loop env (fields (env r))
       (insert (record_name (env r)) (case so of Some s \<Rightarrow> s | None \<Rightarrow> {})) = Inr (specs, st')"
    by (auto simp: get_schema_dict.simps Let_def split: sum.splits)
  from declared_mono(2)[OF this] show ?thesis by blast
qed




















lemma outer_doc_defs:
  "record_defs (PDict outer_doc) = [(''Outer'', Some ''ns''), (''Inner'', None)]"
  by (simp add: record_defs.simps(2) outer_doc_def outer_fields_def inner_doc_def)

text \<open>
  C7. An Integer field is named \<open>int\<close> when its size is at most 4 and \<open>long\<close> otherwise; a
  Float field is named \<open>float\<close> when its size is at most 4 and \<open>double\<close> otherwise. The
  simplified schema of both is that name.
\<close>

theorem avro_type_name_numeric:
  "avro_type_name env (Integer sz n d) = (if sz \<le> 4 then ''int'' else ''long'') \<and>
   avro_type_name env (Float sz n d) = (if sz \<le> 4 then ''float'' else ''double'') \<and>
   simplified_avro_type_schema env (Integer sz n d) st =
     Inr (PStr (if sz \<le> 4 then ''int'' else ''long''), st) \<and>
   simplified_avro_type_schema env (Float sz n d) st =
     Inr (PStr (if sz \<le> 4 then ''float'' else ''double''), st)"
  by simp

text \<open>
  C3. Given the simplified type of a field, \<^verbatim>\<open>avro_type_schema\<close> returns the union
  \<open>["null", simple]\<close> for a nullable field whose default is \<open>None\<close> or \<open>NO_DEFAULT\<close>, the
  union \<open>[simple, "null"]\<close> for a nullable field with any other default, and the simplified
  type itself for a field that is not nullable.
\<close>

theorem nullable_union_ordering:
  assumes "simplified_avro_type_schema env f st = Inr (simple_type, st')"
  shows "(nullable f \<and> (default_v f = PNone \<or> default_v f = NO_DEFAULT) \<longrightarrow>
            avro_type_schema env f st = Inr (PList [PStr ''null'', simple_type], st')) \<and>
         (nullable f \<and> default_v f \<noteq> PNone \<and> default_v f \<noteq> NO_DEFAULT \<longrightarrow>
            avro_type_schema env f st = Inr (PList [simple_type, PStr ''null''], st')) \<and>
         (\<not> nullable f \<longrightarrow> avro_type_schema env f st = Inr (simple_type, st'))"
  using assms by (simp add: avro_type_schema.simps)

theorem nullable_union_ordering_witness:
  "avro_type_schema (\<lambda>r::bool. Schema ''A'' ''A'' None []) (Integer 8 True PNone) {}
     = Inr (PList [PStr ''null'', PStr ''long''], {}) \<and>
   avro_type_schema (\<lambda>r::bool. Schema ''A'' ''A'' None []) (Integer 4 True (PInt 7)) {}
     = Inr (PList [PStr ''int'', PStr ''null''], {}) \<and>
   avro_type_schema (\<lambda>r::bool. Schema ''A'' ''A'' None []) (Text False NO_DEFAULT) {}
     = Inr (PStr ''string'', {})"
  using nullable_union_ordering
          [of "\<lambda>r::bool. Schema ''A'' ''A'' None []" "Integer 8 True PNone" "{}" "PStr ''long''" "{}"]
        nullable_union_ordering
          [of "\<lambda>r::bool. Schema ''A'' ''A'' None []" "Integer 4 True (PInt 7)" "{}" "PStr ''int''" "{}"]
        nullable_union_ordering
          [of "\<lambda>r::bool. Schema ''A'' ''A'' None []" "Text False NO_DEFAULT" "{}" "PStr ''string''" "{}"]
  by simp

text \<open>
  C6. In a record definition returned by \<^verbatim>\<open>get_schema_dict\<close> there is one entry per
  field, in order, and the entry has a \<open>default\<close> key exactly when the field's default is not
  \<open>NO_DEFAULT\<close>.
\<close>

theorem default_key_iff_declared:
  assumes "get_schema_dict env r so = Inr (PDict doc, st')"
  shows "\<exists>specs. get_item (PDict doc) ''fields'' = Some (PList specs) \<and>
           length specs = length (fields (env r)) \<and>
           (\<forall>i<length specs.
              has_key (specs ! i) ''default'' = (default_v (snd (fields (env r) ! i)) \<noteq> NO_DEFAULT))"
proof -
  from get_schema_dict_fields[OF assms] obtain specs st where
    loop: "avro_fields_loop env (fields (env r)) st = Inr (specs, st')" and
    f: "map_of doc (PStr ''fields'') = Some (PList specs)" by blast
  from avro_fields_loop_specs[OF loop] have
    len: "length specs = length (fields (env r))" and
    sp: "\<forall>i<length (fields (env r)). \<exists>ty. specs ! i =
      PDict ([(PStr ''name'', PStr (fst (fields (env r) ! i))), (PStr ''type'', ty)]
             @ (if default_v (snd (fields (env r) ! i)) \<noteq> NO_DEFAULT
                then [(PStr ''default'', default_v (snd (fields (env r) ! i)))] else []))"
    by auto
  have "has_key (specs ! i) ''default'' = (default_v (snd (fields (env r) ! i)) \<noteq> NO_DEFAULT)"
    if "i < length specs" for i
  proof -
    from that len sp obtain ty where "specs ! i =
      PDict ([(PStr ''name'', PStr (fst (fields (env r) ! i))), (PStr ''type'', ty)]
             @ (if default_v (snd (fields (env r) ! i)) \<noteq> NO_DEFAULT
                then [(PStr ''default'', default_v (snd (fields (env r) ! i)))] else []))"
      by auto
    then show ?thesis by (auto simp: has_key_def)
  qed
  with f len show ?thesis by (auto simp: get_item_def)
qed

theorem default_key_iff_declared_witness:
  "\<exists>specs. get_item (PDict outer_doc) ''fields'' = Some (PList specs) \<and>
     length specs = 5 \<and>
     \<not> has_key (specs ! 0) ''default'' \<and> has_key (specs ! 1) ''default'' \<and>
     has_key (specs ! 2) ''default'' \<and> \<not> has_key (specs ! 3) ''default'' \<and>
     has_key (specs ! 4) ''default''"
proof -
  from default_key_iff_declared[OF env_two_run] obtain specs where
    s: "get_item (PDict outer_doc) ''fields'' = Some (PList specs)"
       "length specs = length (fields (env_two True))"
       "\<forall>i<length specs.
          has_key (specs ! i) ''default'' = (default_v (snd (fields (env_two True) ! i)) \<noteq> NO_DEFAULT)"
    by blast
  from s(2) have len: "length specs = 5" by (simp add: env_two_def)
  from s(3) len have "has_key (specs ! i) ''default'' =
      (default_v (snd (fields (env_two True) ! i)) \<noteq> NO_DEFAULT)" if "i < 5" for i
    using that by simp
  from this[of 0] this[of 1] this[of 2] this[of 3] this[of 4] s(1) len
  show ?thesis by (auto simp: env_two_def)
qed

text \<open>
  C10. \<^verbatim>\<open>avro_default_value\<close> is the field's default, and the \<open>default\<close> item of a field
  entry is that very object: absent for \<open>NO_DEFAULT\<close>, otherwise the declared default as
  it is, for every kind of field and either nullability.
\<close>

theorem default_emitted_verbatim:
  assumes "get_schema_dict env r so = Inr (PDict doc, st')"
  shows "\<exists>specs. get_item (PDict doc) ''fields'' = Some (PList specs) \<and>
           length specs = length (fields (env r)) \<and>
           (\<forall>i<length specs.
              avro_default_value (snd (fields (env r) ! i)) = default_v (snd (fields (env r) ! i)) \<and>
              get_item (specs ! i) ''default'' =
                (if default_v (snd (fields (env r) ! i)) \<noteq> NO_DEFAULT
                 then Some (default_v (snd (fields (env r) ! i))) else None))"
proof -
  from get_schema_dict_fields[OF assms] obtain specs st where
    loop: "avro_fields_loop env (fields (env r)) st = Inr (specs, st')" and
    f: "map_of doc (PStr ''fields'') = Some (PList specs)" by blast
  from avro_fields_loop_specs[OF loop] have
    len: "length specs = length (fields (env r))" and
    sp: "\<forall>i<length (fields (env r)). \<exists>ty. specs ! i =
      PDict ([(PStr ''name'', PStr (fst (fields (env r) ! i))), (PStr ''type'', ty)]
             @ (if default_v (snd (fields (env r) ! i)) \<noteq> NO_DEFAULT
                then [(PStr ''default'', default_v (snd (fields (env r) ! i)))] else []))"
    by auto
  have "get_item (specs ! i) ''default'' =
          (if default_v (snd (fields (env r) ! i)) \<noteq> NO_DEFAULT
           then Some (default_v (snd (fields (env r) ! i))) else None)"
    if "i < length specs" for i
  proof -
    from that len sp obtain ty where "specs ! i =
      PDict ([(PStr ''name'', PStr (fst (fields (env r) ! i))), (PStr ''type'', ty)]
             @ (if default_v (snd (fields (env r) ! i)) \<noteq> NO_DEFAULT
                then [(PStr ''default'', default_v (snd (fields (env r) ! i)))] else []))"
      by auto
    then show ?thesis by (auto simp: get_item_def)
  qed
  with f len show ?thesis by (auto simp: get_item_def avro_default_value_def)
qed

theorem default_emitted_verbatim_witness:
  "\<exists>specs. get_item (PDict outer_doc) ''fields'' = Some (PList specs) \<and>
     get_item (specs ! 0) ''default'' = None \<and>
     get_item (specs ! 1) ''default'' = Some PNone \<and>
     get_item (specs ! 2) ''default'' = Some (PInt 7) \<and>
     get_item (specs ! 4) ''default'' = Some (PList [])"
proof -
  from default_emitted_verbatim[OF env_two_run] obtain specs where
    s: "get_item (PDict outer_doc) ''fields'' = Some (PList specs)"
       "length specs = length (fields (env_two True))"
       "\<forall>i<length specs.
              avro_default_value (snd (fields (env_two True) ! i)) = default_v (snd (fields (env_two True) ! i)) \<and>
              get_item (specs ! i) ''default'' =
                (if default_v (snd (fields (env_two True) ! i)) \<noteq> NO_DEFAULT
                 then Some (default_v (snd (fields (env_two True) ! i))) else None)"
    by blast
  from s(2) have len: "length specs = 5" by (simp add: env_two_def)
  from s(3) len have "get_item (specs ! i) ''default'' =
                (if default_v (snd (fields (env_two True) ! i)) \<noteq> NO_DEFAULT
                 then Some (default_v (snd (fields (env_two True) ! i))) else None)" if "i < 5" for i
    using that by simp
  from this[of 0] this[of 1] this[of 2] this[of 4] s(1)
  show ?thesis by (auto simp: env_two_def)
qed

text \<open>
  C5, as stated, fails for \<^verbatim>\<open>get_schema_dict\<close>: a class whose qualified name is declared
  in the state it is given gets the bare name before any of its fields is looked at, also
  when one of them is a map keyed by integers.
\<close>

theorem declared_record_counterexample:
  "(''m'', Map (Integer 8 False NO_DEFAULT) (Text False NO_DEFAULT) False NO_DEFAULT)
     \<in> set (fields (env_bad True)) \<and>
   \<not> is_Text (Integer 8 False NO_DEFAULT :: bool field) \<and>
   get_schema_dict env_bad True (Some {''Bad''}) = Inr (PStr ''Bad'', {''Bad''})"
  by (simp add: get_schema_dict.simps env_bad_def record_name_def)

text \<open>
  C5, amended. The simplified schema, and so the type schema, of a Map whose key is not a
  Text field is an assertion failure in every state; generating the schema of a class that
  has such a field and whose qualified name is not declared yet, as in every call without
  a state, fails the same way.
\<close>

theorem map_key_must_be_text:
  assumes "\<not> is_Text k"
  shows "simplified_avro_type_schema env (Map k v n d) st = Inl AssertionError \<and>
         avro_type_schema env (Map k v n d) st = Inl AssertionError \<and>
         (\<forall>r name so. (name, Map k v n d) \<in> set (fields (env r)) \<and>
              record_name (env r) \<notin> (case so of Some s \<Rightarrow> s | None \<Rightarrow> {}) \<longrightarrow>
              get_schema_dict env r so = Inl AssertionError)"
proof -
  have simple: "simplified_avro_type_schema env (Map k v n d) st = Inl AssertionError" for st
    using assms by simp
  then have full: "avro_type_schema env (Map k v n d) st = Inl AssertionError" for st
    by (simp add: avro_type_schema.simps)
  have "get_schema_dict env r so = Inl AssertionError"
    if "(name, Map k v n d) \<in> set (fields (env r))"
      and "record_name (env r) \<notin> (case so of Some s \<Rightarrow> s | None \<Rightarrow> {})" for r name so
    using avro_fields_loop_fails[of env "Map k v n d" name "fields (env r)", OF full that(1)] that(2)
    by (simp add: get_schema_dict.simps Let_def)
  with simple full show ?thesis by blast
qed

theorem map_key_must_be_text_witness:
  "simplified_avro_type_schema env_bad
      (Map (Integer 8 False NO_DEFAULT) (Text False NO_DEFAULT) False NO_DEFAULT) {} = Inl AssertionError \<and>
   get_schema_dict env_bad True None = Inl AssertionError"
proof -
  have k: "\<not> is_Text (Integer 8 False NO_DEFAULT :: bool field)" by simp
  have m: "(''m'', Map (Integer 8 False NO_DEFAULT) (Text False NO_DEFAULT) False NO_DEFAULT)
             \<in> set (fields (env_bad True))"
    by (simp add: env_bad_def)
  have u: "record_name (env_bad True) \<notin> (case None of Some s \<Rightarrow> s | None \<Rightarrow> {})" by simp
  from map_key_must_be_text[OF k, of env_bad "Text False NO_DEFAULT" False NO_DEFAULT "{}"] m u
  show ?thesis by blast
qed

text \<open>
  C9. A call without a state starts from the empty declared set, and so does
  \<^verbatim>\<open>get_schema_string\<close>: the result is that of a call with a new, empty state, whatever
  was generated before. Such a call never answers with the bare name of its own class,
  which is what a call handed the state left by the first one does.
\<close>

theorem fresh_state_per_call:
  "get_schema_dict env r None = get_schema_dict env r (Some {}) \<and>
   get_schema_string json_dumps env r =
     (case get_schema_dict env r (Some {}) of Inl e \<Rightarrow> Inl e | Inr (d, st) \<Rightarrow> json_dumps d) \<and>
   (\<forall>d1 st1. get_schema_dict env r None = Inr (d1, st1) \<longrightarrow>
      d1 \<noteq> PStr (record_name (env r)) \<and>
      get_schema_dict env r (Some st1) = Inr (PStr (record_name (env r)), st1))"
proof (intro conjI allI impI)
  show "get_schema_dict env r None = get_schema_dict env r (Some {})"
    by (simp add: get_schema_dict.simps)
  show "get_schema_string json_dumps env r =
     (case get_schema_dict env r (Some {}) of Inl e \<Rightarrow> Inl e | Inr (d, st) \<Rightarrow> json_dumps d)"
    by (simp add: get_schema_dict.simps get_schema_string_def)
next
  fix d1 st1 assume run: "get_schema_dict env r None = Inr (d1, st1)"
  then show "d1 \<noteq> PStr (record_name (env r))"
    by (auto simp: get_schema_dict.simps Let_def split: sum.splits)
  from get_schema_dict_declares[OF run]
  show "get_schema_dict env r (Some st1) = Inr (PStr (record_name (env r)), st1)"
    by (simp add: get_schema_dict.simps)
qed

theorem fresh_state_per_call_witness:
  "get_schema_dict env_two True None = Inr (PDict outer_doc, {''ns.Outer'', ''Inner''}) \<and>
   get_schema_dict env_two True (Some {''ns.Outer'', ''Inner''})
     = Inr (PStr ''ns.Outer'', {''ns.Outer'', ''Inner''})"
  using fresh_state_per_call[of env_two True] env_two_run
  by (simp add: record_name_def env_two_def)



section \<open>Properties of the value codec\<close>

lemma loop_prefix_loads:
  assumes "\<forall>a \<in> set ks. \<exists>n f x y. a = PStr n \<and> map_of (fields (env schema)) n = Some f \<and>
             getitem dct n = Inr x \<and> avro_load c env f x = Inr y"
  shows "\<exists>kw'. from_json_compatible_loop c env schema dct (ks @ more) kw
               = from_json_compatible_loop c env schema dct more kw'"
  using assms
proof (induction ks arbitrary: kw)
  case Nil
  then show ?case by auto
next
  case (Cons a ks)
  then obtain n f x y where a: "a = PStr n" "map_of (fields (env schema)) n = Some f"
    "getitem dct n = Inr x" "avro_load c env f x = Inr y" by auto
  from Cons.IH[of "setitem kw n y"] Cons.prems
  obtain kw' where "from_json_compatible_loop c env schema dct (ks @ more) (setitem kw n y)
               = from_json_compatible_loop c env schema dct more kw'" by auto
  with a show ?case by auto
qed

lemma loop_unknown_fails:
  assumes "PStr k \<in> set keys" and "map_of (fields (env schema)) k = None"
  shows "\<exists>e. from_json_compatible_loop c env schema dct keys kw = Inl e"
  using assms(1)
proof (induction keys arbitrary: kw)
  case Nil
  then show ?case by simp
next
  case (Cons a keys)
  show ?case
  proof (cases "a = PStr k")
    case True
    with assms(2) show ?thesis by simp
  next
    case False
    with Cons.prems have "PStr k \<in> set keys" by simp
    from Cons.IH[OF this] show ?thesis
      by (auto split: sum.splits option.splits)
  qed
qed

lemma loop_error_origin:
  assumes "\<forall>a \<in> set keys. \<exists>n. a = PStr n \<and> n \<in> fst ` set (fields (env schema))"
    and "set keys \<subseteq> fst ` set kvs"
    and "from_json_compatible_loop c env schema (PDict kvs) keys kw = Inl e"
  shows "\<exists>n f x. PStr n \<in> set keys \<and> map_of (fields (env schema)) n = Some f \<and>
           getitem (PDict kvs) n = Inr x \<and> avro_load c env f x = Inl e"
  using assms
proof (induction keys arbitrary: kw)
  case Nil
  then show ?case by simp
next
  case (Cons a keys)
  from Cons.prems(1) obtain n where a: "a = PStr n" "n \<in> fst ` set (fields (env schema))"
    by auto
  then obtain f where f: "map_of (fields (env schema)) n = Some f"
    by (metis domD dom_map_of_conv_image_fst)
  from Cons.prems(2) a have "PStr n \<in> fst ` set kvs" by simp
  then obtain x where x: "map_of kvs (PStr n) = Some x"
    by (metis domD dom_map_of_conv_image_fst)
  show ?case
  proof (cases "avro_load c env f x")
    case (Inl e')
    with Cons.prems(3) a f x have "e' = e" by simp
    with Inl a f x show ?thesis by auto
  next
    case (Inr y)
    with Cons.prems(3) a f x
    have "from_json_compatible_loop c env schema (PDict kvs) keys (setitem kw n y) = Inl e"
      by simp
    from Cons.IH[OF _ _ this] Cons.prems(1,2) show ?thesis by auto
  qed
qed

text \<open>
  C4, as stated, fails: the keys are taken in the order the mapping iterates them, and the
  value of a key that comes before the unknown one is loaded first. Here the value of
  \<open>opt\<close> has no \<open>long\<close> item, so the load ends in a key error and the unknown field is never
  reached.
\<close>

theorem unknown_field_counterexample:
  "map_of (fields (env_opt True)) ''unknown_field'' = None \<and>
   from_json_compatible identity_core env_opt True
     (PDict [(PStr ''opt'', PDict [(PStr ''wrong'', PInt 1)]), (PStr ''unknown_field'', PInt 1)])
   = Inl KeyError"
  by (simp add: env_opt_def field_avro_load_def)

text \<open>
  C4, amended. A mapping with a key that is not a field of the schema always fails to load.
  When the values of the keys iterated before that key load, the failure is the parse
  error whose message names the class and the key. When every key of the mapping is a
  field, any failure is the failure of loading the value of one of the keys.
\<close>

theorem from_json_compatible_unknown_field:
  "(map_of (fields (env schema)) k = None \<longrightarrow>
      (\<exists>e. from_json_compatible c env schema (PDict (pre @ (PStr k, v) # rest)) = Inl e) \<and>
      ((\<forall>(a, b) \<in> set pre. \<exists>n f y. a = PStr n \<and> map_of (fields (env schema)) n = Some f \<and>
                                avro_load c env f b = Inr y) \<longrightarrow>
         from_json_compatible c env schema (PDict (pre @ (PStr k, v) # rest)) =
           Inl (ParseError (''Unexpected field encountered in line for record ''
                            @ cls_name (env schema) @ '': '' @ k)))) \<and>
   ((\<forall>a \<in> fst ` set kvs. \<exists>n. a = PStr n \<and> n \<in> fst ` set (fields (env schema))) \<longrightarrow>
      (\<forall>e. from_json_compatible c env schema (PDict kvs) = Inl e \<longrightarrow>
         (\<exists>n f x. PStr n \<in> fst ` set kvs \<and> map_of (fields (env schema)) n = Some f \<and>
            getitem (PDict kvs) n = Inr x \<and> avro_load c env f x = Inl e)))"
proof (intro conjI impI allI)
  assume unknown: "map_of (fields (env schema)) k = None"
  let ?kvs = "pre @ (PStr k, v) # rest"
  from loop_unknown_fails[of k "map fst ?kvs" env schema c "PDict ?kvs" "[]", OF _ unknown]
  show "\<exists>e. from_json_compatible c env schema (PDict ?kvs) = Inl e" by simp
next
  assume unknown: "map_of (fields (env schema)) k = None"
    and loads: "\<forall>(a, b) \<in> set pre. \<exists>n f y. a = PStr n \<and> map_of (fields (env schema)) n = Some f \<and>
                                avro_load c env f b = Inr y"
  let ?kvs = "pre @ (PStr k, v) # rest"
  have "\<exists>n f x y. a = PStr n \<and> map_of (fields (env schema)) n = Some f \<and>
             getitem (PDict ?kvs) n = Inr x \<and> avro_load c env f x = Inr y"
    if "a \<in> set (map fst pre)" for a
  proof -
    from that obtain b where b: "map_of pre a = Some b"
      by (metis domD dom_map_of_conv_image_fst set_map)
    then have "(a, b) \<in> set pre" by (rule map_of_SomeD)
    with loads obtain n f y where "a = PStr n" "map_of (fields (env schema)) n = Some f"
      "avro_load c env f b = Inr y" by fastforce
    moreover from b have "map_of ?kvs a = Some b" by simp
    ultimately show ?thesis by auto
  qed
  from loop_prefix_loads[of "map fst pre" env schema "PDict ?kvs" c "PStr k # map fst rest" "[]"] this
  obtain kw' where "from_json_compatible_loop c env schema (PDict ?kvs)
      (map fst pre @ PStr k # map fst rest) []
    = from_json_compatible_loop c env schema (PDict ?kvs) (PStr k # map fst rest) kw'"
    by blast
  with unknown show "from_json_compatible c env schema (PDict ?kvs) =
           Inl (ParseError (''Unexpected field encountered in line for record ''
                            @ cls_name (env schema) @ '': '' @ k))"
    by (simp add: unexpected_field_def py_str_def)
next
  fix e
  assume "\<forall>a \<in> fst ` set kvs. \<exists>n. a = PStr n \<and> n \<in> fst ` set (fields (env schema))"
    and "from_json_compatible c env schema (PDict kvs) = Inl e"
  with loop_error_origin[of "map fst kvs" env schema kvs c "[]" e]
  show "\<exists>n f x. PStr n \<in> fst ` set kvs \<and> map_of (fields (env schema)) n = Some f \<and>
            getitem (PDict kvs) n = Inr x \<and> avro_load c env f x = Inl e"
    by simp
qed

theorem from_json_compatible_unknown_field_witness:
  "from_json_compatible identity_core env_opt True
     (PDict [(PStr ''foo'', PStr ''x''), (PStr ''unknown_field'', PInt 1)])
     = Inl (ParseError ''Unexpected field encountered in line for record MyRecord: unknown_field'') \<and>
   (\<exists>n f x. PStr n \<in> fst ` set [(PStr ''opt'', PDict [(PStr ''wrong'', PInt 1)])] \<and>
      map_of (fields (env_opt True)) n = Some f \<and>
      getitem (PDict [(PStr ''opt'', PDict [(PStr ''wrong'', PInt 1)])]) n = Inr x \<and>
      avro_load identity_core env_opt f x = Inl KeyError)"
proof -
  have unknown: "map_of (fields (env_opt True)) ''unknown_field'' = None"
    by (simp add: env_opt_def)
  have loads: "\<forall>(a, b) \<in> set [(PStr ''foo'', PStr ''x'')].
      \<exists>n f y. a = PStr n \<and> map_of (fields (env_opt True)) n = Some f \<and>
              avro_load identity_core env_opt f b = Inr y"
    by (simp add: env_opt_def field_avro_load_def identity_core_def)
  have known: "\<forall>a \<in> fst ` set [(PStr ''opt'', PDict [(PStr ''wrong'', PInt 1)])].
      \<exists>n. a = PStr n \<and> n \<in> fst ` set (fields (env_opt True))"
    by (simp add: env_opt_def)
  have fails: "from_json_compatible identity_core env_opt True
      (PDict [(PStr ''opt'', PDict [(PStr ''wrong'', PInt 1)])]) = Inl KeyError"
    by (simp add: env_opt_def field_avro_load_def)
  from from_json_compatible_unknown_field[of env_opt True "''unknown_field''" identity_core
      "[(PStr ''foo'', PStr ''x'')]" "PInt 1" "[]"
      "[(PStr ''opt'', PDict [(PStr ''wrong'', PInt 1)])]"]
    unknown loads known fails
  show ?thesis by (simp add: env_opt_def)
qed

lemma none_in_none_out:
  "avro_dump c env f PNone = Inr PNone" "avro_load c env f PNone = Inr PNone"
  by (cases f; simp add: field_avro_dump_def field_avro_load_def)+

lemma valid_scalar_kind:
  assumes "valid_scalar f obj"
  shows "obj \<noteq> PNone" "avro_dump c env f obj = field_avro_dump c env f obj"
    "avro_load c env f j = field_avro_load c env f j" "hashable obj"
  using assms by (cases f; cases obj; simp)+

lemma scalar_rt:
  assumes c: "scalar_roundtrip c" and v: "valid_scalar f obj"
  shows "\<exists>j. avro_dump c env f obj = Inr j \<and> avro_load c env f j = Inr obj"
proof -
  from c v obtain j where j: "dump c f obj = Inr j" "j \<noteq> PNone" "load c f j = Inr obj"
    unfolding scalar_roundtrip_def by blast
  show ?thesis
  proof (cases "nullable f")
    case True
    with j valid_scalar_kind(1)[OF v]
    have "field_avro_dump c env f obj = Inr (PDict [(PStr (avro_type_name env f), j)])"
      "field_avro_load c env f (PDict [(PStr (avro_type_name env f), j)]) = Inr obj"
      by (simp_all add: field_avro_dump_def field_avro_load_def)
    then show ?thesis using valid_scalar_kind(2,3)[OF v] by metis
  next
    case False
    with j valid_scalar_kind(1)[OF v]
    have "field_avro_dump c env f obj = Inr j" "field_avro_load c env f j = Inr obj"
      by (simp_all add: field_avro_dump_def field_avro_load_def)
    then show ?thesis using valid_scalar_kind(2,3)[OF v] by metis
  qed
qed

lemma list_rt:
  assumes "\<forall>x \<in> set xs. \<exists>j. avro_dump c env t x = Inr j \<and> avro_load c env t j = Inr x"
  shows "\<exists>js. avro_dump_list c env t xs = Inr js \<and> avro_load_list c env t js = Inr xs"
  using assms
proof (induction xs)
  case Nil
  then show ?case by simp
next
  case (Cons x xs)
  then obtain j js where "avro_dump c env t x = Inr j" "avro_load c env t j = Inr x"
    "avro_dump_list c env t xs = Inr js" "avro_load_list c env t js = Inr xs" by auto
  then show ?case by simp
qed

lemma setitem_append: "k \<notin> fst ` set kvs \<Longrightarrow> setitem kvs k v = kvs @ [(k, v)]"
  by (induction kvs) auto

lemma dict_of_distinct:
  assumes "distinct (map fst (acc @ ps))" and "\<forall>p \<in> set ps. hashable (fst p)"
  shows "dict_of ps acc = Inr (acc @ ps)"
  using assms
proof (induction ps arbitrary: acc)
  case Nil
  then show ?case by simp
next
  case (Cons p ps)
  obtain k v where p: "p = (k, v)" by (cases p)
  from Cons.prems p have "k \<notin> fst ` set acc" by auto
  then have s: "setitem acc k v = acc @ [(k, v)]" by (rule setitem_append)
  from Cons.prems p have "distinct (map fst ((acc @ [(k, v)]) @ ps))" by simp
  from Cons.IH[OF this] Cons.prems(2) have "dict_of ps (acc @ [(k, v)]) = Inr ((acc @ [(k, v)]) @ ps)"
    by simp
  with s p Cons.prems(2) show ?case by simp
qed

lemma items_rt:
  assumes "\<forall>p \<in> set kvs.
             (\<exists>ja. dump c k (fst p) = Inr ja \<and> hashable ja \<and> load c k ja = Inr (fst p)) \<and>
             (\<exists>jb. avro_dump c env v (snd p) = Inr jb \<and> avro_load c env v jb = Inr (snd p))"
  shows "\<exists>ps. avro_dump_items c env k v kvs = Inr ps \<and> avro_load_items c env k v ps = Inr kvs \<and>
              (\<forall>p \<in> set ps. hashable (fst p)) \<and>
              map (\<lambda>p. load c k (fst p)) ps = map (\<lambda>p. Inr (fst p)) kvs"
  using assms
proof (induction kvs)
  case Nil
  then show ?case by simp
next
  case (Cons p kvs)
  obtain a b where p: "p = (a, b)" by (cases p)
  from Cons.prems p obtain ja jb where
    ja: "dump c k a = Inr ja" "hashable ja" "load c k ja = Inr a" and
    jb: "avro_dump c env v b = Inr jb" "avro_load c env v jb = Inr b" by auto
  from Cons.IH Cons.prems obtain ps where
    ps: "avro_dump_items c env k v kvs = Inr ps" "avro_load_items c env k v ps = Inr kvs"
      "\<forall>p \<in> set ps. hashable (fst p)"
      "map (\<lambda>p. load c k (fst p)) ps = map (\<lambda>p. Inr (fst p)) kvs" by auto
  show ?case
  proof (intro exI[of _ "(ja, jb) # ps"] conjI)
    show "avro_dump_items c env k v (p # kvs) = Inr ((ja, jb) # ps)"
      using p ja jb ps by simp
    show "avro_load_items c env k v ((ja, jb) # ps) = Inr (p # kvs)"
      using p ja jb ps by simp
    show "\<forall>p \<in> set ((ja, jb) # ps). hashable (fst p)" using ja ps by simp
    show "map (\<lambda>p. load c k (fst p)) ((ja, jb) # ps) = map (\<lambda>p. Inr (fst p)) (p # kvs)"
      using p ja ps by simp
  qed
qed

lemma distinct_dumped_keys:
  assumes "map (\<lambda>p. g (fst p)) ps = map (\<lambda>p. Inr (fst p)) kvs" and "distinct (map fst kvs)"
  shows "distinct (map fst ps)"
proof -
  have "map g (map fst ps) = map Inr (map fst kvs)" using assms(1) by (simp add: comp_def)
  moreover have "distinct (map Inr (map fst kvs))"
    using assms(2) by (subst distinct_map) (auto intro: inj_onI)
  ultimately have "distinct (map g (map fst ps))" by simp
  then show ?thesis by (subst (asm) distinct_map) simp
qed


lemma to_json_loop_rt:
  assumes "\<forall>nf \<in> set fs. \<exists>val j. getattr rcd (fst nf) = Inr val \<and>
              avro_dump c env (snd nf) val = Inr j \<and> avro_load c env (snd nf) j = Inr val"
    and "distinct (map fst fs)"
    and "\<forall>nf \<in> set fs. PStr (fst nf) \<notin> fst ` set dct"
  shows "\<exists>js. length js = length fs \<and>
           to_json_compatible_loop c env rcd fs dct
             = Inr (PDict (dct @ zip (map (\<lambda>nf. PStr (fst nf)) fs) js)) \<and>
           (\<forall>(nf, j) \<in> set (zip fs js).
               \<exists>val. getattr rcd (fst nf) = Inr val \<and> avro_load c env (snd nf) j = Inr val)"
  using assms
proof (induction fs arbitrary: dct)
  case Nil
  then show ?case by simp
next
  case (Cons nf fs)
  obtain name f where nf: "nf = (name, f)" by (cases nf)
  from Cons.prems(1) nf obtain val j where
    h: "getattr rcd name = Inr val" "avro_dump c env f val = Inr j" "avro_load c env f j = Inr val"
    by auto
  from Cons.prems(3) nf have "PStr name \<notin> fst ` set dct" by simp
  then have s: "setitem dct (PStr name) j = dct @ [(PStr name, j)]" by (rule setitem_append)
  have "\<forall>nf \<in> set fs. PStr (fst nf) \<notin> fst ` set (dct @ [(PStr name, j)])"
    using Cons.prems(2,3) nf by auto
  from Cons.IH[OF _ _ this] Cons.prems(1,2)
  obtain js where js: "length js = length fs"
    "to_json_compatible_loop c env rcd fs (dct @ [(PStr name, j)])
       = Inr (PDict ((dct @ [(PStr name, j)]) @ zip (map (\<lambda>nf. PStr (fst nf)) fs) js))"
    "\<forall>(nf, j) \<in> set (zip fs js).
        \<exists>val. getattr rcd (fst nf) = Inr val \<and> avro_load c env (snd nf) j = Inr val"
    by auto
  show ?case
  proof (intro exI[of _ "j # js"] conjI)
    show "length (j # js) = length (nf # fs)" using js(1) by simp
    show "to_json_compatible_loop c env rcd (nf # fs) dct
            = Inr (PDict (dct @ zip (map (\<lambda>nf. PStr (fst nf)) (nf # fs)) (j # js)))"
      using nf h s js(2) by simp
    show "\<forall>(nf, j) \<in> set (zip (nf # fs) (j # js)).
            \<exists>val. getattr rcd (fst nf) = Inr val \<and> avro_load c env (snd nf) j = Inr val"
      using nf h js(3) by simp
  qed
qed

lemma from_json_loop_rt:
  assumes "length js = length fs"
    and "\<forall>(nf, j) \<in> set (zip fs js).
           map_of (fields (env r)) (fst nf) = Some (snd nf) \<and>
           getitem dct0 (fst nf) = Inr j \<and>
           (\<exists>val. getattr rcd (fst nf) = Inr val \<and> avro_load c env (snd nf) j = Inr val)"
    and "distinct (map fst fs)"
    and "\<forall>nf \<in> set fs. fst nf \<notin> fst ` set kw"
  shows "\<exists>vals. length vals = length fs \<and>
           from_json_compatible_loop c env r dct0 (map (\<lambda>nf. PStr (fst nf)) fs) kw
             = Inr (new_record env r (kw @ zip (map fst fs) vals)) \<and>
           (\<forall>(nf, val) \<in> set (zip fs vals). getattr rcd (fst nf) = Inr val)"
  using assms
proof (induction fs arbitrary: js kw)
  case Nil
  then show ?case by simp
next
  case (Cons nf fs)
  obtain name f where nf: "nf = (name, f)" by (cases nf)
  from Cons.prems(1) obtain j js' where js: "js = j # js'" "length js' = length fs"
    by (cases js) auto
  from Cons.prems(2) nf js obtain val where
    h: "map_of (fields (env r)) name = Some f" "getitem dct0 name = Inr j"
       "getattr rcd name = Inr val" "avro_load c env f j = Inr val"
    by auto
  from Cons.prems(4) nf have "name \<notin> fst ` set kw" by simp
  then have s: "setitem kw name val = kw @ [(name, val)]" by (rule setitem_append)
  have "\<forall>nf \<in> set fs. fst nf \<notin> fst ` set (kw @ [(name, val)])"
    using Cons.prems(3,4) nf by auto
  from Cons.IH[OF js(2) _ _ this] Cons.prems(2,3) js
  obtain vals where vals: "length vals = length fs"
    "from_json_compatible_loop c env r dct0 (map (\<lambda>nf. PStr (fst nf)) fs) (kw @ [(name, val)])
       = Inr (new_record env r ((kw @ [(name, val)]) @ zip (map fst fs) vals))"
    "\<forall>(nf, val) \<in> set (zip fs vals). getattr rcd (fst nf) = Inr val"
    by auto
  show ?case
  proof (intro exI[of _ "val # vals"] conjI)
    show "length (val # vals) = length (nf # fs)" using vals(1) by simp
    show "from_json_compatible_loop c env r dct0 (map (\<lambda>nf. PStr (fst nf)) (nf # fs)) kw
            = Inr (new_record env r (kw @ zip (map fst (nf # fs)) (val # vals)))"
      using nf h s vals(2) by simp
    show "\<forall>(nf, val) \<in> set (zip (nf # fs) (val # vals)). getattr rcd (fst nf) = Inr val"
      using nf h vals(3) by simp
  qed
qed

lemma attrs_by_name:
  assumes "distinct (map fst attrs)" and "i < length attrs"
  shows "map_of attrs (fst (attrs ! i)) = Some (snd (attrs ! i))"
  using assms by (intro map_of_is_SomeI) auto

lemma attrs_eq_zip:
  assumes len: "length vals = length fs"
    and names: "map fst attrs = map fst fs"
    and d: "distinct (map fst attrs)"
    and vals: "\<forall>(nf, val) \<in> set (zip fs vals). map_of attrs (fst nf) = Some val"
  shows "zip (map fst fs) vals = attrs"
proof (rule nth_equalityI)
  from names have l: "length attrs = length fs" by (metis length_map)
  then show "length (zip (map fst fs) vals) = length attrs" using len by simp
  fix i assume "i < length (zip (map fst fs) vals)"
  then have i: "i < length fs" "i < length vals" "i < length attrs" using len l by auto
  then have "(fs ! i, vals ! i) \<in> set (zip fs vals)"
    by (metis in_set_zip fst_conv snd_conv)
  with vals have "map_of attrs (fst (fs ! i)) = Some (vals ! i)" by auto
  moreover from names i have n: "fst (fs ! i) = fst (attrs ! i)"
    by (metis nth_map)
  moreover note attrs_by_name[OF d i(3)]
  ultimately have "vals ! i = snd (attrs ! i)" by simp
  with n i show "zip (map fst fs) vals ! i = attrs ! i"
    by (simp add: prod_eq_iff)
qed

lemma new_record_attrs:
  assumes names: "map fst attrs = map fst (fields (env r))" and d: "distinct (map fst attrs)"
  shows "new_record env r attrs = PRecord r attrs"
proof -
  from names have l: "length attrs = length (fields (env r))" by (metis length_map)
  have "map (\<lambda>(name, f). (name, case map_of attrs name of Some v \<Rightarrow> v | None \<Rightarrow> default_v f))
            (fields (env r)) = attrs"
  proof (rule nth_equalityI)
    show "length (map (\<lambda>(name, f). (name, case map_of attrs name of Some v \<Rightarrow> v | None \<Rightarrow> default_v f))
            (fields (env r))) = length attrs" using l by simp
    fix i assume "i < length (map (\<lambda>(name, f). (name, case map_of attrs name of Some v \<Rightarrow> v | None \<Rightarrow> default_v f))
            (fields (env r)))"
    then have i: "i < length (fields (env r))" "i < length attrs" using l by auto
    from names i have n: "fst (fields (env r) ! i) = fst (attrs ! i)" by (metis nth_map)
    from attrs_by_name[OF d i(2)] n i
    show "map (\<lambda>(name, f). (name, case map_of attrs name of Some v \<Rightarrow> v | None \<Rightarrow> default_v f))
            (fields (env r)) ! i = attrs ! i"
      by (simp add: case_prod_beta prod_eq_iff)
  qed
  then show ?thesis by (simp add: new_record_def)
qed


lemma record_rt:
  assumes d: "distinct (map fst (fields (env r)))"
    and names: "map fst attrs = map fst (fields (env r))"
    and each: "\<forall>p \<in> set attrs. \<forall>f. map_of (fields (env r)) (fst p) = Some f \<longrightarrow>
                 (\<exists>j. avro_dump c env f (snd p) = Inr j \<and> avro_load c env f j = Inr (snd p))"
  shows "\<exists>j. to_json_compatible (c :: 'r core) env (PRecord r attrs) = Inr j \<and> j \<noteq> PNone \<and>
              from_json_compatible c env r j = Inr (PRecord r attrs)"
proof -
  let ?rcd = "PRecord r attrs" and ?fs = "fields (env r)"
  let ?ks = "map (\<lambda>nf. PStr (fst nf)) ?fs :: 'r pyval list"
  from d names have da: "distinct (map fst attrs)" by simp
  have by_field: "map_of ?fs (fst nf) = Some (snd nf)" if "nf \<in> set ?fs" for nf
    using d that by (intro map_of_is_SomeI) auto
  have per_field: "\<exists>val j. getattr ?rcd (fst nf) = Inr val \<and>
      avro_dump c env (snd nf) val = Inr j \<and> avro_load c env (snd nf) j = Inr val"
    if "nf \<in> set ?fs" for nf
  proof -
    from that have "fst nf \<in> set (map fst attrs)" unfolding names by simp
    then obtain p where p: "p \<in> set attrs" "fst p = fst nf" by auto
    then have "(fst nf, snd p) \<in> set attrs" by (metis prod.collapse)
    with da have "map_of attrs (fst nf) = Some (snd p)"
      by (intro map_of_is_SomeI)
    then have "getattr ?rcd (fst nf) = Inr (snd p)" by simp
    moreover from by_field[OF that] p(2)
    have "map_of ?fs (fst p) = Some (snd nf)" by simp
    with each p(1)
    obtain j where "avro_dump c env (snd nf) (snd p) = Inr j"
      "avro_load c env (snd nf) j = Inr (snd p)" by blast
    ultimately show ?thesis by blast
  qed
  from to_json_loop_rt[of ?fs ?rcd c env "[]"] per_field d
  obtain js where js: "length js = length ?fs"
    "to_json_compatible_loop c env ?rcd ?fs [] = Inr (PDict (zip ?ks js))"
    "\<forall>(nf, j) \<in> set (zip ?fs js).
        \<exists>val. getattr ?rcd (fst nf) = Inr val \<and> avro_load c env (snd nf) j = Inr val"
    by auto
  have keys: "map fst (zip ?ks js) = ?ks" using js(1) by (simp add: map_fst_zip)
  have dk: "distinct ?ks"
  proof -
    have "?ks = map PStr (map fst ?fs)" by simp
    moreover have "distinct (map PStr (map fst ?fs))"
      using d by (subst distinct_map) (auto intro: inj_onI)
    ultimately show ?thesis by (simp add: comp_def)
  qed
  have item: "getitem (PDict (zip ?ks js)) (fst nf) = Inr j"
    if "(nf, j) \<in> set (zip ?fs js)" for nf j
  proof -
    from that have "(PStr (fst nf), j) \<in> set (zip ?ks js)"
      by (auto simp: zip_map1 intro!: rev_image_eqI[of "(nf, j)"])
    moreover have "distinct (map fst (zip ?ks js))" unfolding keys by (rule dk)
    ultimately have "map_of (zip ?ks js) (PStr (fst nf)) = Some j"
      by (intro map_of_is_SomeI)
    then show ?thesis by simp
  qed
  have "\<forall>(nf, j) \<in> set (zip ?fs js).
           map_of ?fs (fst nf) = Some (snd nf) \<and>
           getitem (PDict (zip ?ks js)) (fst nf) = Inr j \<and>
           (\<exists>val. getattr ?rcd (fst nf) = Inr val \<and> avro_load c env (snd nf) j = Inr val)"
    using js(3) item by_field by (auto dest: set_zip_leftD)
  from from_json_loop_rt[OF js(1) this d, of "[]"]
  obtain vals where vals: "length vals = length ?fs"
    "from_json_compatible_loop c env r (PDict (zip ?ks js)) ?ks []
       = Inr (new_record env r (zip (map fst ?fs) vals))"
    "\<forall>(nf, val) \<in> set (zip ?fs vals). getattr ?rcd (fst nf) = Inr val"
    by auto
  from vals(3) have "\<forall>(nf, val) \<in> set (zip ?fs vals). map_of attrs (fst nf) = Some val"
    by (auto split: option.splits)
  from attrs_eq_zip[OF vals(1) names da this] have "zip (map fst ?fs) vals = attrs" .
  with vals(2) new_record_attrs[of attrs env r, OF names da]
  have "from_json_compatible_loop c env r (PDict (zip ?ks js)) ?ks [] = Inr ?rcd" by simp
  then have "from_json_compatible c env r (PDict (zip ?ks js)) = Inr ?rcd"
    using keys by simp
  with js(2) show ?thesis by simp
qed

lemma avro_roundtrip_valid:
  assumes c: "scalar_roundtrip c"
  shows "valid env f obj \<Longrightarrow>
         \<exists>j. avro_dump c env f obj = Inr j \<and> avro_load c env f j = Inr obj"
proof (induction env f obj rule: valid.induct)
  case (1 env f)
  then show ?case by (simp add: none_in_none_out)
next
  case (2 env t n d xs)
  then have "\<forall>x \<in> set xs. \<exists>j. avro_dump c env t x = Inr j \<and> avro_load c env t j = Inr x"
    by simp
  from list_rt[OF this] obtain js where
    "avro_dump_list c env t xs = Inr js" "avro_load_list c env t js = Inr xs" by blast
  then show ?case by (cases n) simp_all
next
  case (3 env k v n d kvs)
  then have dist: "distinct (map fst kvs)" and
    keys: "\<forall>p \<in> set kvs. valid_scalar k (fst p)" and
    vals: "\<forall>p \<in> set kvs. \<exists>jb. avro_dump c env v (snd p) = Inr jb \<and> avro_load c env v jb = Inr (snd p)"
    by auto
  have "\<forall>p \<in> set kvs.
          (\<exists>ja. dump c k (fst p) = Inr ja \<and> hashable ja \<and> load c k ja = Inr (fst p)) \<and>
          (\<exists>jb. avro_dump c env v (snd p) = Inr jb \<and> avro_load c env v jb = Inr (snd p))"
    using keys vals c unfolding scalar_roundtrip_def by blast
  from items_rt[OF this] obtain ps where ps:
    "avro_dump_items c env k v kvs = Inr ps" "avro_load_items c env k v ps = Inr kvs"
    "\<forall>p \<in> set ps. hashable (fst p)"
    "map (\<lambda>p. load c k (fst p)) ps = map (\<lambda>p. Inr (fst p)) kvs" by blast
  from distinct_dumped_keys[OF ps(4) dist] ps(3)
  have dps: "dict_of ps [] = Inr ps" using dict_of_distinct[of "[]" ps] by simp
  from keys have "\<forall>p \<in> set kvs. hashable (fst p)" by (auto dest: valid_scalar_kind(4))
  with dist have dkvs: "dict_of kvs [] = Inr kvs" using dict_of_distinct[of "[]" kvs] by simp
  from ps(1,2) dps dkvs show ?case by (cases n) simp_all
next
  case (4 env r n d r' attrs)
  then have r: "r' = r" and dist: "distinct (map fst (fields (env r)))" and
    names: "map fst attrs = map fst (fields (env r))" and
    ok: "\<forall>p \<in> set attrs. case map_of (fields (env r)) (fst p) of
                           Some f \<Rightarrow> valid env f (snd p) | None \<Rightarrow> False"
    by auto
  have "\<forall>p \<in> set attrs. \<forall>f. map_of (fields (env r)) (fst p) = Some f \<longrightarrow>
          (\<exists>j. avro_dump c env f (snd p) = Inr j \<and> avro_load c env f j = Inr (snd p))"
  proof (intro ballI allI impI)
    fix p f assume p: "p \<in> set attrs" "map_of (fields (env r)) (fst p) = Some f"
    with ok have "valid env f (snd p)" by fastforce
    from "4.IH"[OF p this] show "\<exists>j. avro_dump c env f (snd p) = Inr j \<and> avro_load c env f j = Inr (snd p)" .
  qed
  from record_rt[OF dist names this] r obtain j where
    "to_json_compatible c env (PRecord r' attrs) = Inr j" "j \<noteq> PNone"
    "from_json_compatible c env r j = Inr (PRecord r' attrs)" by auto
  then show ?case by (cases n) simp_all
qed (auto intro: scalar_rt[OF c])

lemma identity_core_roundtrip: "scalar_roundtrip identity_core"
  unfolding scalar_roundtrip_def identity_core_def
  by (auto dest: valid_scalar_kind(1) valid_scalar_kind(4))

text \<open>
  C1. With a scalar codec that round-trips, every valid value of every field, of any kind
  and either nullability, is dumped to an object from which \<^verbatim>\<open>avro_load\<close> gives the value
  back. For every codec, \<^verbatim>\<open>avro_dump\<close> and \<^verbatim>\<open>avro_load\<close> of \<open>None\<close> are \<open>None\<close>, and
  the empty list is dumped as the empty list, wrapped for a nullable field, which loads as
  the empty list.
\<close>

theorem avro_roundtrip:
  "(scalar_roundtrip c \<and> valid env f obj \<longrightarrow>
      (\<exists>j. avro_dump c env f obj = Inr j \<and> avro_load c env f j = Inr obj)) \<and>
   avro_dump c env f PNone = Inr PNone \<and> avro_load c env f PNone = Inr PNone \<and>
   avro_dump c env (List t n d) (PList [])
     = Inr (if n then PDict [(PStr ''array'', PList [])] else PList []) \<and>
   avro_load c env (List t n d) (if n then PDict [(PStr ''array'', PList [])] else PList [])
     = Inr (PList [])"
proof (intro conjI impI)
  assume "scalar_roundtrip c \<and> valid env f obj"
  then show "\<exists>j. avro_dump c env f obj = Inr j \<and> avro_load c env f j = Inr obj"
    using avro_roundtrip_valid[of c env f obj] by blast
next
  show "avro_dump c env f PNone = Inr PNone" by (rule none_in_none_out)
  show "avro_load c env f PNone = Inr PNone" by (rule none_in_none_out)
  show "avro_dump c env (List t n d) (PList [])
     = Inr (if n then PDict [(PStr ''array'', PList [])] else PList [])" by simp
  show "avro_load c env (List t n d) (if n then PDict [(PStr ''array'', PList [])] else PList [])
     = Inr (PList [])" by simp
qed

theorem avro_roundtrip_witness:
  "scalar_roundtrip (identity_core :: bool core) \<and>
   valid env_opt (SubRecord True False NO_DEFAULT) my_record \<and>
   avro_dump identity_core env_opt (SubRecord True False NO_DEFAULT) my_record = Inr my_record_json \<and>
   avro_load identity_core env_opt (SubRecord True False NO_DEFAULT) my_record_json = Inr my_record"
proof -
  have v: "valid env_opt (SubRecord True False NO_DEFAULT) my_record"
    by (simp add: my_record_def env_opt_def)
  have d: "avro_dump identity_core env_opt (SubRecord True False NO_DEFAULT) my_record
             = Inr my_record_json"
    by (simp add: my_record_def my_record_json_def env_opt_def field_avro_dump_def identity_core_def)
  from avro_roundtrip[of identity_core env_opt "SubRecord True False NO_DEFAULT" my_record]
    identity_core_roundtrip v d
  show ?thesis by auto
qed

section \<open>Properties of the batch adapter\<close>

lemma mr_writer_prefix:
  "map dumps pre = map Inr lines \<Longrightarrow>
   mr_writer job dumps (pre @ rest) out err = mr_writer job dumps rest (out @ lines) err"
proof (induction pre arbitrary: out lines)
  case Nil
  then show ?case by simp
next
  case (Cons a pre)
  then obtain l ls where "lines = l # ls" "dumps a = Inr l" "map dumps pre = map Inr ls"
    by (cases lines) auto
  with Cons.IH[of ls "out @ [l]"] show ?case by simp
qed

text \<open>
  C8. When every record encodes, \<^verbatim>\<open>mr_writer\<close> appends one line per record, in order,
  writes nothing to the error stream and raises nothing. When the records before \<open>bad\<close>
  encode and \<open>bad\<close> raises a parse error, the lines of those records are written, the error's
  description is appended to the error stream, the error is raised, and no later record is
  encoded.
\<close>

theorem mr_writer_lines_or_abort:
  "(map dumps outputs = map Inr lines \<longrightarrow>
      mr_writer job dumps outputs out err = (None, out @ lines, err)) \<and>
   (map dumps pre = map Inr lines \<and> dumps bad = Inl (ParseError e) \<longrightarrow>
      mr_writer job dumps (pre @ bad # rest) out err =
        (Some (ParseError e), out @ lines, err @ [e]))"
proof (intro conjI impI)
  assume "map dumps outputs = map Inr lines"
  from mr_writer_prefix[OF this, of job "[]" out err]
  show "mr_writer job dumps outputs out err = (None, out @ lines, err)" by simp
next
  assume "map dumps pre = map Inr lines \<and> dumps bad = Inl (ParseError e)"
  then have p: "map dumps pre = map Inr lines" and b: "dumps bad = Inl (ParseError e)" by auto
  from mr_writer_prefix[OF p, of job "bad # rest" out err] b
  show "mr_writer job dumps (pre @ bad # rest) out err =
        (Some (ParseError e), out @ lines, err @ [e])" by simp
qed

theorem mr_writer_lines_or_abort_witness:
  "mr_writer () dumps_ex [1, 2] [] [] = (None, [''x'', ''xx''], []) \<and>
   mr_writer () dumps_ex ([1, 2] @ 0 # [3]) [] [] =
     (Some (ParseError ''bad record''), [''x'', ''xx''], [''bad record''])"
proof -
  have p: "map dumps_ex [1, 2] = map Inr [''x'', ''xx'']"
    by (simp add: dumps_ex_def numeral_2_eq_2)
  have b: "dumps_ex 0 = Inl (ParseError ''bad record'')" by (simp add: dumps_ex_def)
  from mr_writer_lines_or_abort[of dumps_ex "[1, 2]" "[''x'', ''xx'']" "()" "[]" "[]" "[1, 2]" 0
      "''bad record''" "[3]"] p b
  show ?thesis by simp
qed

end
